theory Spec2Isabelle
  imports Main "HOL-Library.Word"
begin

unbundle bit_operations_syntax

section \<open>Data model of the checkpointing core (execution\_context.h)\<close>

text \<open>
  Physical and virtual addresses, sizes and registers are \<open>uint64_t\<close>; a byte of
  physical memory is \<open>uint8_t\<close>.
\<close>

type_synonym u8 = "8 word"
type_synonym u16 = "16 word"
type_synonym u32 = "32 word"
type_synonym u64 = "64 word"

text \<open>
  Modelled from the spec: the declaration of \<open>CPUContext\<close> (asm.h) is not part of the
  sources at hand. The spec describes it as the architectural register file: the
  general-purpose registers, the interrupt frame (\<open>rip\<close>, \<open>cs\<close>, \<open>rsp\<close>, \<open>ss\<close>,
  \<open>rflags\<close>), the control register \<open>cr3\<close> and the FPU/SSE state. The fields that
  execution\_context.h reads and writes (\<open>int_ctx.rip\<close>, \<open>int_ctx.cs\<close>, \<open>int_ctx.rsp\<close>,
  \<open>int_ctx.ss\<close>, \<open>int_ctx.rflags\<close>, \<open>cr3\<close>) keep their names.
\<close>

record InterruptContext =
  rip :: u64
  cs :: u64
  rflags :: u64
  rsp :: u64
  ss :: u64

record CPUContext =
  cr3 :: u64
  greg :: "u64 list"
  fpu_context :: "u8 list"
  int_ctx :: InterruptContext

record SegmentMapping =
  vaddr :: u64
  paddr :: u64
  map_size :: u64

record ProcessMappingInfo =
  code :: SegmentMapping
  data :: SegmentMapping
  stack :: SegmentMapping
  heap :: SegmentMapping

record ExecutionContext =
  cpu_context :: CPUContext
  map_info :: ProcessMappingInfo
  kernel_rsp :: u64
  heap_used_size :: u64

text \<open>
  The error kinds of the core. An assertion of the code or a stated precondition that
  does not hold is the value \<open>PRECONDITION_VIOLATED\<close>.
\<close>

datatype error =
    PMEM_EXHAUSTED | SCHED_FULL | UNINITIALIZED | HEAP_OVERFLOW | HEAP_UNDERFLOW
  | CORRUPT_PMEM | PRECONDITION_VIOLATED

subsection \<open>ExecutionContext::SetRegisters\<close>

text \<open>
  The function pointer \<open>rip\<close> and the pointer \<open>rsp\<close> are reinterpreted as 64-bit
  integers; the 16-bit selectors \<open>cs\<close> and \<open>ss\<close> are zero-extended by the assignment.
\<close>

definition SetRegisters ::
  "u64 \<Rightarrow> u16 \<Rightarrow> u64 \<Rightarrow> u16 \<Rightarrow> u64 \<Rightarrow> u64 \<Rightarrow> u64 \<Rightarrow> ExecutionContext \<Rightarrow> ExecutionContext" where
  "SetRegisters rip_arg cs_arg rsp_arg ss_arg cr3_arg rflags_arg kernel_rsp_arg this =
     this\<lparr>cpu_context :=
            (cpu_context this)\<lparr>int_ctx :=
                                 (int_ctx (cpu_context this))\<lparr>rip := rip_arg,
                                                              cs := ucast cs_arg,
                                                              rsp := rsp_arg,
                                                              ss := ucast ss_arg,
                                                              rflags := rflags_arg OR 2\<rparr>,
                               cr3 := cr3_arg\<rparr>,
          kernel_rsp := kernel_rsp_arg,
          heap_used_size := 0\<rparr>"

subsection \<open>ExecutionContext::ExpandHeap\<close>

text \<open>
  Modelled from the spec: \<open>ExpandHeap\<close> is declared in execution\_context.h
  (\<open>void ExpandHeap(int64_t diff)\<close>) and its body is not part of the sources at hand.
  The spec: a signed adjustment to \<open>heap_used_size\<close> with an invariant check against
  \<open>heap.map_size\<close>, which fails with \<open>HEAP_OVERFLOW\<close> or \<open>HEAP_UNDERFLOW\<close>; the
  invariant is \<open>0 \<le> heap_used_size \<le> heap.map_size\<close>. The argument is an
  \<open>int64_t\<close>, read here with \<open>sint\<close>; the counter is a \<open>uint64_t\<close>.
\<close>

definition ExpandHeap :: "u64 \<Rightarrow> ExecutionContext \<Rightarrow> error + ExecutionContext" where
  "ExpandHeap diff this =
     (let new_size = uint (heap_used_size this) + sint diff
      in if new_size < 0 then Inl HEAP_UNDERFLOW
         else if uint (map_size (heap (map_info this))) < new_size then Inl HEAP_OVERFLOW
         else Inr (this\<lparr>heap_used_size := word_of_int new_size\<rparr>))"

text \<open>
  A sequence of calls. Failures are values: a failed call reports its error and the
  process goes on with the context it had, so the next call sees the unchanged counter.
  The result lists what every call returned (\<open>None\<close> for success) and the final context.
\<close>

fun ExpandHeap_calls ::
  "u64 list \<Rightarrow> ExecutionContext \<Rightarrow> error option list \<times> ExecutionContext" where
  "ExpandHeap_calls [] this = ([], this)"
| "ExpandHeap_calls (d # ds) this =
     (case ExpandHeap d this of
        Inl e \<Rightarrow> (case ExpandHeap_calls ds this of (rs, final) \<Rightarrow> (Some e # rs, final))
      | Inr this' \<Rightarrow> (case ExpandHeap_calls ds this' of (rs, final) \<Rightarrow> (None # rs, final)))"

text \<open>
  \<open>sums_in_bounds limit acc ds\<close>: no partial sum of the deltas \<open>ds\<close>, started at
  \<open>acc\<close>, goes negative or exceeds \<open>limit\<close>.
\<close>

fun sums_in_bounds :: "int \<Rightarrow> int \<Rightarrow> int list \<Rightarrow> bool" where
  "sums_in_bounds limit acc [] = True"
| "sums_in_bounds limit acc (d # ds) =
     (0 \<le> acc + d \<and> acc + d \<le> limit \<and> sums_in_bounds limit (acc + d) ds)"

definition heap_limit :: "ExecutionContext \<Rightarrow> int" where
  "heap_limit this = uint (map_size (heap (map_info this)))"

text \<open>A context with a heap segment of \<open>lim\<close> bytes and the counter at \<open>used\<close>.\<close>

definition heap_ctx :: "u64 \<Rightarrow> u64 \<Rightarrow> ExecutionContext" where
  "heap_ctx used lim =
     \<lparr>cpu_context = \<lparr>cr3 = 0, greg = [], fpu_context = [],
                      int_ctx = \<lparr>rip = 0, cs = 0, rflags = 2, rsp = 0, ss = 0\<rparr>\<rparr>,
      map_info = \<lparr>code = \<lparr>vaddr = 0, paddr = 0, map_size = 0\<rparr>,
                  data = \<lparr>vaddr = 0, paddr = 0, map_size = 0\<rparr>,
                  stack = \<lparr>vaddr = 0, paddr = 0, map_size = 0\<rparr>,
                  heap = \<lparr>vaddr = 0x10000, paddr = 0x20000, map_size = lim\<rparr>\<rparr>,
      kernel_rsp = 0, heap_used_size = used\<rparr>"

section \<open>RingBuffer (ring\_buffer.h)\<close>

text \<open>
  \<open>RingBuffer<T, n>\<close>: the array \<open>elements_[n]\<close> and the two indices. The indices
  are C \<open>int\<close>s that the constructor sets to 0 and that \<open>Pop\<close> and \<open>Push\<close> only
  assign a remainder modulo \<open>n\<close>, so they are natural numbers below \<open>n\<close> and no
  conversion between \<open>int\<close> and \<open>unsigned int\<close> changes their value. The template
  parameter \<open>n\<close> is an argument of the operations. The constructor leaves
  \<open>elements_\<close> uninitialised: whatever it holds is the argument of \<open>RingBuffer_new\<close>.
  \<open>return {}\<close> returns a value-initialised \<open>T\<close>, the argument \<open>dflt\<close>.
\<close>

record 'a RingBuffer =
  elements :: "'a list"
  readp :: nat
  writep :: nat

definition RingBuffer_new :: "'a list \<Rightarrow> 'a RingBuffer" where
  "RingBuffer_new uninitialised = \<lparr>elements = uninitialised, readp = 0, writep = 0\<rparr>"

definition IsEmpty :: "'a RingBuffer \<Rightarrow> bool" where
  "IsEmpty rb \<longleftrightarrow> readp rb = writep rb"

definition Pop :: "nat \<Rightarrow> 'a \<Rightarrow> 'a RingBuffer \<Rightarrow> 'a \<times> 'a RingBuffer" where
  "Pop n dflt rb =
     (if IsEmpty rb then (dflt, rb)
      else let v = elements rb ! readp rb
           in (v, rb\<lparr>readp := (readp rb + 1) mod n\<rparr>))"

definition Push :: "nat \<Rightarrow> 'a \<Rightarrow> 'a RingBuffer \<Rightarrow> 'a RingBuffer" where
  "Push n v rb =
     (let nextp = (writep rb + 1) mod n
      in if nextp = readp rb then rb
         else rb\<lparr>elements := (elements rb)[writep rb := v], writep := nextp\<rparr>)"

text \<open>
  What the buffer holds: the elements from \<open>readp\<close> up to, not including, \<open>writep\<close>,
  in the order in which \<open>Pop\<close> will return them.
\<close>

definition held_count :: "nat \<Rightarrow> 'a RingBuffer \<Rightarrow> nat" where
  "held_count n rb = (writep rb + n - readp rb) mod n"

definition held :: "nat \<Rightarrow> 'a RingBuffer \<Rightarrow> 'a list" where
  "held n rb = map (\<lambda>i. elements rb ! ((readp rb + i) mod n)) [0..<held_count n rb]"

definition rb_wf :: "nat \<Rightarrow> 'a RingBuffer \<Rightarrow> bool" where
  "rb_wf n rb \<longleftrightarrow> 0 < n \<and> length (elements rb) = n \<and> readp rb < n \<and> writep rb < n"

text \<open>
  A caller's requests, and the queue they describe: a first-in first-out queue of at most
  \<open>n - 1\<close> elements that drops a pushed value when it is full.
\<close>

datatype 'a rb_request = CallPush 'a | CallPop

fun rb_apply :: "nat \<Rightarrow> 'a \<Rightarrow> 'a RingBuffer \<Rightarrow> 'a rb_request \<Rightarrow> 'a RingBuffer" where
  "rb_apply n dflt rb (CallPush v) = Push n v rb"
| "rb_apply n dflt rb CallPop = snd (Pop n dflt rb)"

fun fifo_apply :: "nat \<Rightarrow> 'a list \<Rightarrow> 'a rb_request \<Rightarrow> 'a list" where
  "fifo_apply n q (CallPush v) = (if length q = n - 1 then q else q @ [v])"
| "fifo_apply n q CallPop = tl q"

section \<open>The UDP packet builder (virtio\_net.h)\<close>

record IPv4UDPPacket =
  dst :: "u8 list"
  src :: "u8 list"
  eth_type :: "u8 list"
  version_and_ihl :: u8
  dscp_and_ecn :: u8
  total_length :: "u8 list"
  ident :: u16
  flags :: u16
  ttl :: u8
  protocol :: u8
  checksum :: u16
  src_ip :: "u8 list"
  dst_ip :: "u8 list"
  src_port :: "u8 list"
  dst_port :: "u8 list"
  udp_length :: "u8 list"
  udp_checksum :: "u8 list"
  udp_data :: u32

text \<open>
  \<open>p\<close> points at \<open>version_and_ihl\<close> and is read as a \<open>uint16_t\<close>: on the
  little-endian x86-64 the low byte is \<open>version_and_ihl\<close> and the high byte is
  \<open>dscp_and_ecn\<close>. The loop never advances \<open>p\<close>.
\<close>

definition first_header_word :: "IPv4UDPPacket \<Rightarrow> u16" where
  "first_header_word this = ucast (version_and_ihl this) OR push_bit 8 (ucast (dscp_and_ecn this))"

text \<open>
  The \<open>for\<close> loop of \<open>CalcAndSetChecksum\<close>, from the value \<open>i\<close> of the counter on.
  \<open>*p\<close> is promoted to \<open>int\<close> before the shifts; the values stay below \<open>2^24\<close>, so
  32-bit words compute them exactly. Besides the sum the function returns a log with one
  entry for each iteration of the body: the value of \<open>i\<close> and whether the branch
  \<open>if (i == 5) continue\<close> was taken.
\<close>

function checksum_for ::
  "int \<Rightarrow> u16 \<Rightarrow> u32 \<Rightarrow> (int \<times> bool) list \<Rightarrow> u32 \<times> (int \<times> bool) list" where
  "checksum_for i p csum visited =
     (if i < 5 then
        (if i = 5 then checksum_for (i + 1) p csum (visited @ [(i, True)])
         else checksum_for (i + 1) p
                (csum + (drop_bit 8 (ucast p) OR (push_bit 8 (ucast p) AND 0xff00)))
                (visited @ [(i, False)]))
      else (csum, visited))"
  by pat_completeness auto
termination
  by (relation "measure (\<lambda>(i, p, csum, visited). nat (5 - i))") auto

text \<open>
  \<open>while (checksum >> 16)\<close>: the condition reads the 16-bit field \<open>checksum\<close>, promoted
  to \<open>int\<close>, which the body never changes; a true condition would loop forever.
\<close>

partial_function (option) checksum_while :: "u16 \<Rightarrow> u32 \<Rightarrow> u32 option" where
  "checksum_while chk csum =
     (if drop_bit 16 (ucast chk :: u32) \<noteq> 0
      then checksum_while chk ((csum AND 0xffff) + drop_bit 16 csum)
      else Some csum)"

definition CalcAndSetChecksum :: "IPv4UDPPacket \<Rightarrow> IPv4UDPPacket option" where
  "CalcAndSetChecksum this =
     (let p = first_header_word this;
          csum = fst (checksum_for 0 p 0 [])
      in case checksum_while (checksum this) csum of
           None \<Rightarrow> None
         | Some csum' \<Rightarrow> Some (this\<lparr>checksum := ucast csum'\<rparr>))"

definition CalcAndSetChecksum_iterations :: "IPv4UDPPacket \<Rightarrow> (int \<times> bool) list" where
  "CalcAndSetChecksum_iterations this = snd (checksum_for 0 (first_header_word this) 0 [])"

section \<open>The scheduler (scheduler.h)\<close>

text \<open>
  Modelled from the spec: process.h is not part of the sources at hand. The spec: a
  process is a runtime handle carrying a status in \<open>{Ready, Running, Sleeping, Killed,
  NotInitialized}\<close> and a unique id.
\<close>

datatype Status = kNotInitialized | kReady | kRunning | kSleeping | kKilled

record Process =
  proc_id :: nat
  status :: Status

text \<open>
  The scheduler (scheduler.h): the array \<open>process_\<close> with its count
  \<open>number_of_process_\<close> is the list \<open>process\<close>; the pointer \<open>current_\<close> is the
  slot of the current process in it.
\<close>

record Scheduler =
  process :: "Process list"
  current :: nat

definition kNumberOfProcess :: nat where
  "kNumberOfProcess = 256"

text \<open>
  Modelled from the spec: \<open>RegisterProcess\<close> is declared in scheduler.h and its body
  (scheduler.cc) is not part of the sources at hand. The spec: \<open>register_process(p)\<close>
  appends if capacity remains, otherwise fails with \<open>SCHED_FULL\<close>; it sets
  \<open>p.status = Ready\<close>.
\<close>

definition RegisterProcess :: "Process \<Rightarrow> Scheduler \<Rightarrow> error + Scheduler" where
  "RegisterProcess proc sched =
     (if length (process sched) < kNumberOfProcess
      then Inr (sched\<lparr>process := process sched @ [proc\<lparr>status := kReady\<rparr>]\<rparr>)
      else Inl SCHED_FULL)"

text \<open>
  The constructor (scheduler.h): no process, \<open>current_\<close> at the root process, then
  \<open>RegisterProcess(root_process)\<close> and \<open>root_process.SetStatus(kRunning)\<close>.
\<close>

definition Scheduler_new :: "Process \<Rightarrow> Scheduler" where
  "Scheduler_new root_process =
     (case RegisterProcess root_process \<lparr>process = [], current = 0\<rparr> of
        Inr sched \<Rightarrow> sched\<lparr>process := (process sched)[0 := (process sched ! 0)\<lparr>status := kRunning\<rparr>]\<rparr>
      | Inl e \<Rightarrow> \<lparr>process = [], current = 0\<rparr>)"

definition runnable :: "Process \<Rightarrow> bool" where
  "runnable proc \<longleftrightarrow> status proc = kRunning \<or> status proc = kReady"

text \<open>
  Modelled from the spec: \<open>SwitchProcess\<close> is declared in scheduler.h and its body
  (scheduler.cc) is not part of the sources at hand. The spec: \<open>switch_process()\<close>
  selects the next process in round-robin order whose status is \<open>Running\<close> or
  \<open>Ready\<close>; the discipline is purely round-robin, ties broken by insertion order.
  The round-robin order is the order of the slots after the current one, wrapping
  around, the current slot last; the call makes the selected process the current one
  and returns it.
\<close>

definition current_plus :: "nat \<Rightarrow> nat \<Rightarrow> nat" where
  "current_plus c i = c + 1 + i"

definition round_robin_order :: "Scheduler \<Rightarrow> nat list" where
  "round_robin_order sched =
     (let n = length (process sched)
      in map (\<lambda>i. (current_plus (current sched) i) mod n) [0..<n])"

definition SwitchProcess :: "Scheduler \<Rightarrow> Process option \<times> Scheduler" where
  "SwitchProcess sched =
     (case filter (\<lambda>j. runnable (process sched ! j)) (round_robin_order sched) of
        [] \<Rightarrow> (None, sched)
      | j # _ \<Rightarrow> (Some (process sched ! j), sched\<lparr>current := j\<rparr>))"

text \<open>
  \<open>k\<close> consecutive calls of \<open>SwitchProcess\<close>: the slot each call selected (\<open>None\<close>
  when it selected no process).
\<close>

fun switch_calls :: "nat \<Rightarrow> Scheduler \<Rightarrow> nat option list" where
  "switch_calls 0 sched = []"
| "switch_calls (Suc k) sched =
     (case SwitchProcess sched of
        (None, sched') \<Rightarrow> None # switch_calls k sched'
      | (Some proc, sched') \<Rightarrow> Some (current sched') # switch_calls k sched')"

definition runnable_slots :: "Scheduler \<Rightarrow> nat list" where
  "runnable_slots sched =
     filter (\<lambda>j. runnable (process sched ! j)) [0..<length (process sched)]"

definition slots_upto_current :: "Scheduler \<Rightarrow> nat" where
  "slots_upto_current sched =
     length (filter (\<lambda>j. runnable (process sched ! j)) [0..<Suc (current sched)])"

text \<open>
  A scheduler constructed on a root process (id 0) in which one more process (id 1) has
  been registered.
\<close>

definition two_process_sched :: Scheduler where
  "two_process_sched =
     (case RegisterProcess \<lparr>proc_id = 1, status = kNotInitialized\<rparr>
             (Scheduler_new \<lparr>proc_id = 0, status = kNotInitialized\<rparr>) of
        Inr sched \<Rightarrow> sched
      | Inl e \<Rightarrow> Scheduler_new \<lparr>proc_id = 0, status = kNotInitialized\<rparr>)"

text \<open>
  A scheduler whose second process sleeps, and one whose only process has been killed.
\<close>

definition skipping_sched :: Scheduler where
  "skipping_sched =
     \<lparr>process = [\<lparr>proc_id = 0, status = kRunning\<rparr>, \<lparr>proc_id = 1, status = kSleeping\<rparr>,
                 \<lparr>proc_id = 2, status = kReady\<rparr>],
      current = 0\<rparr>"

definition idle_sched :: Scheduler where
  "idle_sched = \<lparr>process = [\<lparr>proc_id = 0, status = kKilled\<rparr>], current = 0\<rparr>"

section \<open>Segment mapping into the page table\<close>

text \<open>
  Modelled from the spec: paging.h (\<open>IA_PML4\<close>, \<open>CreatePageMapping\<close>,
  \<open>kPageAttrPresent\<close>) is not part of the sources at hand. The spec: the page table
  maps virtual to physical addresses with page attribute bits, among them \<open>Present\<close>;
  creating a mapping installs page-table entries covering \<open>[vaddr, vaddr+map_size)\<close>
  \<open>\<rightarrow>\<close> \<open>[paddr, paddr+map_size)\<close> with the attribute bits, and with \<open>should_flush\<close>
  every touched page-table line is flushed. The page table is the translation it
  defines, address by address, as loads see it and as persistent memory holds it;
  \<open>a - va < byte_size\<close> on 64-bit words says that \<open>a\<close> lies in
  \<open>[va, va+byte_size)\<close>. \<open>Present\<close> is bit 0 of an x86-64 page-table entry.
\<close>

record IA_PML4 =
  translation :: "u64 \<Rightarrow> (u64 \<times> u64) option"
  translation_persisted :: "u64 \<Rightarrow> (u64 \<times> u64) option"

text \<open>
  Modelled from the spec: \<open>kPageAttrPresent\<close> (paging.h) is the \<open>Present\<close> attribute,
  bit 0 of a page-table entry.
\<close>

definition kPageAttrPresent :: u64 where
  "kPageAttrPresent = 1"

text \<open>
  Modelled from the spec: \<open>CreatePageMapping\<close> (paging.h) installs the entries that
  cover \<open>[va, va+byte_size)\<close> \<open>\<rightarrow>\<close> \<open>[pa, pa+byte_size)\<close> with the attribute bits
  \<open>attr\<close>, and with \<open>should_clflush\<close> makes them durable.
\<close>

definition CreatePageMapping ::
  "'allocator \<Rightarrow> IA_PML4 \<Rightarrow> u64 \<Rightarrow> u64 \<Rightarrow> u64 \<Rightarrow> u64 \<Rightarrow> bool \<Rightarrow> IA_PML4" where
  "CreatePageMapping allocator page_root va pa byte_size attr should_clflush =
     (let installed = (\<lambda>table a. if a - va < byte_size then Some (pa + (a - va), attr) else table a)
      in page_root\<lparr>translation := installed (translation page_root),
                   translation_persisted :=
                     (if should_clflush then installed (translation_persisted page_root)
                      else translation_persisted page_root)\<rparr>)"

text \<open>\<open>SegmentMapping::Map\<close> and the getters it calls (execution\_context.h).\<close>

definition GetPhysAddr :: "SegmentMapping \<Rightarrow> u64" where
  "GetPhysAddr this = paddr this"

definition GetVirtAddr :: "SegmentMapping \<Rightarrow> u64" where
  "GetVirtAddr this = vaddr this"

definition GetMapSize :: "SegmentMapping \<Rightarrow> u64" where
  "GetMapSize this = map_size this"

definition Map :: "'allocator \<Rightarrow> IA_PML4 \<Rightarrow> u64 \<Rightarrow> bool \<Rightarrow> SegmentMapping \<Rightarrow> IA_PML4" where
  "Map allocator page_root page_attr should_clflush this =
     (if GetPhysAddr this = 0 then page_root
      else CreatePageMapping allocator page_root (GetVirtAddr this) (GetPhysAddr this)
             (GetMapSize this) (kPageAttrPresent OR page_attr) should_clflush)"

definition empty_pml4 :: IA_PML4 where
  "empty_pml4 = \<lparr>translation = (\<lambda>a. None), translation_persisted = (\<lambda>a. None)\<rparr>"

section \<open>Persistent memory\<close>

text \<open>
  Modelled from the spec: the cache-line flush primitive \<open>CLFlush\<close> (asm.h) is not
  part of the sources at hand. The spec: \<open>clflush(addr)\<close> makes the cache line
  containing \<open>addr\<close> durable, and it is the only durability primitive: a store is
  durable once its line has been flushed, and a crash loses what has not been flushed.

  Physical memory therefore has two views: \<open>bytes\<close>, what loads observe, and
  \<open>persisted\<close>, what persistent memory holds and a crash leaves. A store changes
  \<open>bytes\<close>; a flush copies from \<open>bytes\<close> to \<open>persisted\<close>. Cache lines are taken at
  the granularity of a byte: \<open>CLFlush a\<close> makes the byte at \<open>a\<close> durable, and a range
  is flushed byte by byte (segments are page-aligned, so no line of a segment holds a
  byte of another one).
\<close>

record pmem =
  bytes :: "u64 \<Rightarrow> u8"
  persisted :: "u64 \<Rightarrow> u8"

definition CLFlush :: "u64 \<Rightarrow> pmem \<Rightarrow> pmem" where
  "CLFlush a m = m\<lparr>persisted := (persisted m)(a := bytes m a)\<rparr>"

definition store_byte :: "u64 \<Rightarrow> u8 \<Rightarrow> pmem \<Rightarrow> pmem" where
  "store_byte a v m = m\<lparr>bytes := (bytes m)(a := v)\<rparr>"

text \<open>
  \<open>in_range p n a\<close>: the address \<open>a\<close> lies in the \<open>n\<close> bytes from \<open>p\<close> on
  (64-bit arithmetic). Two ranges are disjoint when neither start lies in the other.
\<close>

definition in_range :: "u64 \<Rightarrow> u64 \<Rightarrow> u64 \<Rightarrow> bool" where
  "in_range p n a \<longleftrightarrow> a - p < n"

definition ranges_disjoint :: "u64 \<Rightarrow> u64 \<Rightarrow> u64 \<Rightarrow> u64 \<Rightarrow> bool" where
  "ranges_disjoint p1 n1 p2 n2 \<longleftrightarrow> n1 = 0 \<or> n2 = 0 \<or> (n1 \<le> p2 - p1 \<and> n2 \<le> p1 - p2)"

definition in_segment :: "SegmentMapping \<Rightarrow> u64 \<Rightarrow> bool" where
  "in_segment seg a \<longleftrightarrow> in_range (paddr seg) (map_size seg) a"

definition in_mapping :: "ProcessMappingInfo \<Rightarrow> u64 \<Rightarrow> bool" where
  "in_mapping mi a \<longleftrightarrow>
     in_segment (code mi) a \<or> in_segment (data mi) a \<or> in_segment (stack mi) a \<or> in_segment (heap mi) a"

text \<open>
  The ownership invariants of the spec: the segments of one mapping occupy pairwise
  disjoint physical ranges, and two execution contexts own distinct physical pages.
\<close>

definition segments_disjoint :: "SegmentMapping \<Rightarrow> SegmentMapping \<Rightarrow> bool" where
  "segments_disjoint s t \<longleftrightarrow> ranges_disjoint (paddr s) (map_size s) (paddr t) (map_size t)"

definition mapping_disjoint :: "ProcessMappingInfo \<Rightarrow> bool" where
  "mapping_disjoint mi \<longleftrightarrow>
     segments_disjoint (code mi) (data mi) \<and> segments_disjoint (code mi) (stack mi) \<and>
     segments_disjoint (code mi) (heap mi) \<and> segments_disjoint (data mi) (stack mi) \<and>
     segments_disjoint (data mi) (heap mi) \<and> segments_disjoint (stack mi) (heap mi)"

definition segment_apart :: "SegmentMapping \<Rightarrow> ProcessMappingInfo \<Rightarrow> bool" where
  "segment_apart seg mi \<longleftrightarrow>
     segments_disjoint seg (code mi) \<and> segments_disjoint seg (data mi) \<and>
     segments_disjoint seg (stack mi) \<and> segments_disjoint seg (heap mi)"

definition mappings_disjoint :: "ProcessMappingInfo \<Rightarrow> ProcessMappingInfo \<Rightarrow> bool" where
  "mappings_disjoint mi mj \<longleftrightarrow>
     segment_apart (code mi) mj \<and> segment_apart (data mi) mj \<and>
     segment_apart (stack mi) mj \<and> segment_apart (heap mi) mj"

subsection \<open>Flushing segments\<close>

text \<open>
  Modelled from the spec: \<open>SegmentMapping::Flush\<close> is declared in
  execution\_context.h and its body is not part of the sources at hand. The spec:
  \<open>flush(root_page_table, &flush_count)\<close> forces every cache line of the segment's
  physical range back to persistent memory and counts the flushes. \<open>flush_bytes n p\<close>
  is the loop over the \<open>n\<close> bytes from \<open>p\<close> on; the counter advances by one for each
  \<open>CLFlush\<close> issued.
\<close>

fun flush_bytes :: "nat \<Rightarrow> u64 \<Rightarrow> pmem \<Rightarrow> pmem" where
  "flush_bytes 0 p m = m"
| "flush_bytes (Suc n) p m = flush_bytes n (p + 1) (CLFlush p m)"

text \<open>
  Modelled from the spec: \<open>SegmentMapping::Flush(pml4, num_of_clflush_issued)\<close>, every
  byte of the segment's physical range made durable and the flushes counted.
\<close>

definition SegmentMapping_Flush :: "'pml4 \<Rightarrow> SegmentMapping \<Rightarrow> u64 \<times> pmem \<Rightarrow> u64 \<times> pmem" where
  "SegmentMapping_Flush pml4 this st =
     (case st of (num_of_clflush_issued, m) \<Rightarrow>
        (num_of_clflush_issued + map_size this,
         flush_bytes (unat (map_size this)) (paddr this) m))"

text \<open>\<open>ProcessMappingInfo::Flush\<close> (execution\_context.h): \<open>code\<close>, \<open>data\<close>, \<open>heap\<close>.\<close>

definition ProcessMappingInfo_Flush ::
  "'pml4 \<Rightarrow> ProcessMappingInfo \<Rightarrow> u64 \<times> pmem \<Rightarrow> u64 \<times> pmem" where
  "ProcessMappingInfo_Flush pml4 this st =
     SegmentMapping_Flush pml4 (heap this)
       (SegmentMapping_Flush pml4 (data this)
          (SegmentMapping_Flush pml4 (code this) st))"

text \<open>
  Modelled from the spec: \<open>ExecutionContext::Flush\<close> is declared in
  execution\_context.h and its body is not part of the sources at hand. The spec:
  \<open>flush(root_page_table, &count)\<close> flushes every segment. The segments of a context
  are those of its \<open>map_info_\<close>, whose \<open>Flush\<close> above is the operation the header
  provides for that.
\<close>

definition ExecutionContext_Flush ::
  "'pml4 \<Rightarrow> ExecutionContext \<Rightarrow> u64 \<times> pmem \<Rightarrow> u64 \<times> pmem" where
  "ExecutionContext_Flush pml4 this st = ProcessMappingInfo_Flush pml4 (map_info this) st"

subsection \<open>Copying a context\<close>

text \<open>
  Modelled from the spec: \<open>SegmentMapping::CopyDataFrom\<close> is declared in
  execution\_context.h and its body is not part of the sources at hand. The spec:
  \<open>copy_data_from(src, &copied_bytes)\<close> has the precondition
  \<open>this.map_size \<ge> src.map_size\<close> and both \<open>paddr\<close> non-zero; it copies
  \<open>src.map_size\<close> bytes from \<open>src.paddr\<close> to \<open>this.paddr\<close>, flushing each
  destination cache line as it is written, and accumulates the bytes copied into the
  counter. \<open>copy_bytes n d s\<close> is the loop over the \<open>n\<close> bytes.
\<close>

fun copy_bytes :: "nat \<Rightarrow> u64 \<Rightarrow> u64 \<Rightarrow> pmem \<Rightarrow> pmem" where
  "copy_bytes 0 d s m = m"
| "copy_bytes (Suc n) d s m =
     copy_bytes n (d + 1) (s + 1) (CLFlush d (store_byte d (bytes m s) m))"

text \<open>
  Modelled from the spec: the precondition of \<open>CopyDataFrom\<close>, and the operation:
  \<open>src.map_size\<close> bytes copied and flushed, the counter advanced by the bytes copied.
\<close>

definition CopyDataFrom_pre :: "SegmentMapping \<Rightarrow> SegmentMapping \<Rightarrow> bool" where
  "CopyDataFrom_pre this from \<longleftrightarrow>
     map_size from \<le> map_size this \<and> paddr this \<noteq> 0 \<and> paddr from \<noteq> 0"

definition CopyDataFrom ::
  "SegmentMapping \<Rightarrow> SegmentMapping \<Rightarrow> u64 \<times> pmem \<Rightarrow> error + u64 \<times> pmem" where
  "CopyDataFrom this from st =
     (case st of (stat_copied_bytes, m) \<Rightarrow>
        if CopyDataFrom_pre this from
        then Inr (stat_copied_bytes + map_size from,
                  copy_bytes (unat (map_size from)) (paddr this) (paddr from) m)
        else Inl PRECONDITION_VIOLATED)"

text \<open>
  \<open>ExecutionContext::CopyContextFrom\<close> (execution\_context.h): save \<open>cr3\<close>, assign
  the whole CPU context, restore \<open>cr3\<close>, then copy the \<open>data\<close> and the \<open>stack\<close>
  segment. The result is the context \<open>this\<close>, the counter and the memory.
\<close>

definition CopyContextFrom ::
  "ExecutionContext \<Rightarrow> ExecutionContext \<Rightarrow> u64 \<times> pmem \<Rightarrow>
     error + ExecutionContext \<times> u64 \<times> pmem" where
  "CopyContextFrom this from st =
     (let cr3_saved = cr3 (cpu_context this);
          this1 = this\<lparr>cpu_context := cpu_context from\<rparr>;
          this2 = this1\<lparr>cpu_context := (cpu_context this1)\<lparr>cr3 := cr3_saved\<rparr>\<rparr>
      in case CopyDataFrom (data (map_info this2)) (data (map_info from)) st of
           Inl e \<Rightarrow> Inl e
         | Inr st1 \<Rightarrow>
             (case CopyDataFrom (stack (map_info this2)) (stack (map_info from)) st1 of
                Inl e \<Rightarrow> Inl e
              | Inr st2 \<Rightarrow> Inr (this2, st2)))"

definition CopyContextFrom_pre :: "ExecutionContext \<Rightarrow> ExecutionContext \<Rightarrow> bool" where
  "CopyContextFrom_pre this from \<longleftrightarrow>
     CopyDataFrom_pre (data (map_info this)) (data (map_info from)) \<and>
     CopyDataFrom_pre (stack (map_info this)) (stack (map_info from))"

text \<open>The memory that \<open>CopyContextFrom\<close> leaves when its preconditions hold.\<close>

definition CopyContextFrom_mem :: "ExecutionContext \<Rightarrow> ExecutionContext \<Rightarrow> pmem \<Rightarrow> pmem" where
  "CopyContextFrom_mem this from m =
     copy_bytes (unat (map_size (stack (map_info from)))) (paddr (stack (map_info this)))
       (paddr (stack (map_info from)))
       (copy_bytes (unat (map_size (data (map_info from)))) (paddr (data (map_info this)))
          (paddr (data (map_info from))) m)"

text \<open>
  Two concrete execution contexts, for the two slots of a persistent process: four
  segments of one page each from the physical address \<open>base\<close> on, and registers that
  tell the contexts apart. \<open>fresh_mem\<close> is a memory in which every byte holds the low
  eight bits of its address and nothing written since the last flush is durable yet
  (persistent memory holds zeroes).
\<close>

definition slot_ctx :: "u64 \<Rightarrow> u64 \<Rightarrow> ExecutionContext" where
  "slot_ctx base r =
     \<lparr>cpu_context = \<lparr>cr3 = base + 0x8000, greg = [r, r + 1], fpu_context = [],
                      int_ctx = \<lparr>rip = 0x400000 + r, cs = 0x23, rflags = 2,
                                 rsp = 0x403000 - r, ss = 0x1b\<rparr>\<rparr>,
      map_info = \<lparr>code = \<lparr>vaddr = 0x400000, paddr = base, map_size = 0x1000\<rparr>,
                  data = \<lparr>vaddr = 0x401000, paddr = base + 0x1000, map_size = 0x1000\<rparr>,
                  stack = \<lparr>vaddr = 0x402000, paddr = base + 0x2000, map_size = 0x1000\<rparr>,
                  heap = \<lparr>vaddr = 0x403000, paddr = base + 0x3000, map_size = 0x1000\<rparr>\<rparr>,
      kernel_rsp = base + 0x9000, heap_used_size = 0\<rparr>"

definition ctx_A :: ExecutionContext where
  "ctx_A = slot_ctx 0x100000 0x10"

definition ctx_B :: ExecutionContext where
  "ctx_B = slot_ctx 0x200000 0x20"

definition fresh_mem :: pmem where
  "fresh_mem = \<lparr>bytes = (\<lambda>a. ucast a), persisted = (\<lambda>a. 0)\<rparr>"

section \<open>PersistentProcessInfo and the checkpoint\<close>

text \<open>
  \<open>PersistentProcessInfo\<close> (execution\_context.h): the array \<open>ctx_[2]\<close> as the fields
  \<open>ctx0\<close> and \<open>ctx1\<close>, the C \<open>int\<close> \<open>valid_ctx_idx_\<close> and the signature.
  \<open>ctx this idx\<close> is \<open>ctx_[idx]\<close> for an index 0 or 1.
\<close>

record PersistentProcessInfo =
  ctx0 :: ExecutionContext
  ctx1 :: ExecutionContext
  valid_ctx_idx :: int
  signature :: u64

definition kSignature :: u64 where
  "kSignature = 0x4F50534F6D75696C"

definition kNumOfExecutionContext :: int where
  "kNumOfExecutionContext = 2"

definition ctx :: "PersistentProcessInfo \<Rightarrow> int \<Rightarrow> ExecutionContext" where
  "ctx this idx = (if idx = 0 then ctx0 this else ctx1 this)"

definition set_ctx :: "int \<Rightarrow> ExecutionContext \<Rightarrow> PersistentProcessInfo \<Rightarrow> PersistentProcessInfo" where
  "set_ctx idx c this = (if idx = 0 then this\<lparr>ctx0 := c\<rparr> else this\<lparr>ctx1 := c\<rparr>)"

definition IsValid :: "PersistentProcessInfo \<Rightarrow> bool" where
  "IsValid this \<longleftrightarrow> signature this = kSignature"

definition GetContext :: "PersistentProcessInfo \<Rightarrow> int \<Rightarrow> error + ExecutionContext" where
  "GetContext this idx =
     (if 0 \<le> idx \<and> idx < kNumOfExecutionContext then Inr (ctx this idx)
      else Inl PRECONDITION_VIOLATED)"

definition GetValidContext :: "PersistentProcessInfo \<Rightarrow> error + ExecutionContext" where
  "GetValidContext this =
     (if 0 \<le> valid_ctx_idx this \<and> valid_ctx_idx this < kNumOfExecutionContext
      then Inr (ctx this (valid_ctx_idx this))
      else Inl PRECONDITION_VIOLATED)"

definition GetWorkingContext :: "PersistentProcessInfo \<Rightarrow> error + ExecutionContext" where
  "GetWorkingContext this =
     (if 0 \<le> valid_ctx_idx this \<and> valid_ctx_idx this < kNumOfExecutionContext
      then Inr (ctx this (1 - valid_ctx_idx this))
      else Inl PRECONDITION_VIOLATED)"

text \<open>
  The record lives in persistent memory too. The machine state holds it as loads see it
  (\<open>info\<close>) and as persistent memory holds it (\<open>info_persisted\<close>), and the physical
  memory of the segments (\<open>ram\<close>). A store to a field changes \<open>info\<close>; the
  \<open>CLFlush\<close> of a field copies it from \<open>info\<close> to \<open>info_persisted\<close>.
\<close>

record machine =
  info :: PersistentProcessInfo
  info_persisted :: PersistentProcessInfo
  ram :: pmem

text \<open>
  The operations on the machine, one for each store and each flush: the flush of a byte
  of a segment, the flush of the fields of a context, the 4-byte store to
  \<open>valid_ctx_idx_\<close> and the flush of its line, the assignment of a whole CPU context,
  the store to \<open>cr3\<close>, and the store of one byte copied from another address.
\<close>

datatype step =
    FlushByte u64
  | FlushContext int
  | StoreValidIndex int
  | FlushValidIndex
  | CopyCPUContext int int
  | StoreCR3 int u64
  | StoreByte u64 u64

fun exec :: "step \<Rightarrow> machine \<Rightarrow> machine" where
  "exec (FlushByte a) s = s\<lparr>ram := CLFlush a (ram s)\<rparr>"
| "exec (FlushContext i) s = s\<lparr>info_persisted := set_ctx i (ctx (info s) i) (info_persisted s)\<rparr>"
| "exec (StoreValidIndex i) s = s\<lparr>info := (info s)\<lparr>valid_ctx_idx := i\<rparr>\<rparr>"
| "exec FlushValidIndex s =
     s\<lparr>info_persisted := (info_persisted s)\<lparr>valid_ctx_idx := valid_ctx_idx (info s)\<rparr>\<rparr>"
| "exec (CopyCPUContext d f) s =
     s\<lparr>info := set_ctx d ((ctx (info s) d)\<lparr>cpu_context := cpu_context (ctx (info s) f)\<rparr>) (info s)\<rparr>"
| "exec (StoreCR3 d v) s =
     s\<lparr>info := set_ctx d ((ctx (info s) d)\<lparr>cpu_context := (cpu_context (ctx (info s) d))\<lparr>cr3 := v\<rparr>\<rparr>)
                  (info s)\<rparr>"
| "exec (StoreByte d a) s = s\<lparr>ram := store_byte d (bytes (ram s) a) (ram s)\<rparr>"

definition run :: "step list \<Rightarrow> machine \<Rightarrow> machine" where
  "run steps s = foldl (\<lambda>s st. exec st s) s steps"

text \<open>
  \<open>PersistentProcessInfo::SetValidContextIndex\<close> (execution\_context.h): the store,
  then \<open>CLFlush(&valid_ctx_idx_)\<close>.
\<close>

definition SetValidContextIndex_steps :: "int \<Rightarrow> step list" where
  "SetValidContextIndex_steps idx = [StoreValidIndex idx, FlushValidIndex]"

definition SetValidContextIndex :: "int \<Rightarrow> machine \<Rightarrow> machine" where
  "SetValidContextIndex idx s = run (SetValidContextIndex_steps idx) s"

text \<open>
  The stores and flushes of the operations above, in program order. The flush of a
  context flushes its segments (as \<open>ExecutionContext_Flush\<close>) and the fields of the
  context itself, so that all its stores are durable; a copy whose precondition fails
  stops where the precondition is checked.
\<close>

definition SegmentMapping_Flush_steps :: "SegmentMapping \<Rightarrow> step list" where
  "SegmentMapping_Flush_steps seg =
     map (\<lambda>i. FlushByte (paddr seg + of_nat i)) [0..<unat (map_size seg)]"

definition ProcessMappingInfo_Flush_steps :: "ProcessMappingInfo \<Rightarrow> step list" where
  "ProcessMappingInfo_Flush_steps mi =
     SegmentMapping_Flush_steps (code mi) @ SegmentMapping_Flush_steps (data mi) @
     SegmentMapping_Flush_steps (heap mi)"

definition ExecutionContext_Flush_steps :: "PersistentProcessInfo \<Rightarrow> int \<Rightarrow> step list" where
  "ExecutionContext_Flush_steps this i =
     ProcessMappingInfo_Flush_steps (map_info (ctx this i)) @ [FlushContext i]"

definition CopyDataFrom_steps :: "SegmentMapping \<Rightarrow> SegmentMapping \<Rightarrow> step list" where
  "CopyDataFrom_steps this from =
     concat (map (\<lambda>i. [StoreByte (paddr this + of_nat i) (paddr from + of_nat i),
                        FlushByte (paddr this + of_nat i)])
                 [0..<unat (map_size from)])"

definition CopyContextFrom_steps :: "PersistentProcessInfo \<Rightarrow> int \<Rightarrow> int \<Rightarrow> step list" where
  "CopyContextFrom_steps this d f =
     [CopyCPUContext d f, StoreCR3 d (cr3 (cpu_context (ctx this d)))] @
     (if CopyDataFrom_pre (data (map_info (ctx this d))) (data (map_info (ctx this f)))
      then CopyDataFrom_steps (data (map_info (ctx this d))) (data (map_info (ctx this f))) @
           (if CopyDataFrom_pre (stack (map_info (ctx this d))) (stack (map_info (ctx this f)))
            then CopyDataFrom_steps (stack (map_info (ctx this d))) (stack (map_info (ctx this f)))
            else [])
      else [])"

text \<open>
  Modelled from the spec: \<open>PersistentProcessInfo::SwitchContext\<close> is declared in
  execution\_context.h and its body is not part of the sources at hand. The spec,
  \<open>switch_context(&copied, &flushed)\<close>:
  \<^enum> let \<open>v = valid_ctx_idx\<close>, \<open>w = 1 - v\<close>; precondition \<open>v \<in> {0,1}\<close>, otherwise fail
    with \<open>UNINITIALIZED\<close>;
  \<^enum> call \<open>ctx[w].flush(...)\<close>;
  \<^enum> store \<open>valid_ctx_idx \<leftarrow> w\<close>, flush the cache line holding that word (commit);
  \<^enum> call \<open>ctx[v].copy_context_from(ctx[w], &copied)\<close>.

  \<open>SwitchContext_steps\<close> is the sequence of stores and flushes of a call;
  \<open>commit_point\<close> is the number of them up to and including the flush of
  \<open>valid_ctx_idx\<close>; \<open>SwitchContext\<close> is the call as a function of the machine state
  and the two counters.
\<close>

definition SwitchContext_steps :: "PersistentProcessInfo \<Rightarrow> step list" where
  "SwitchContext_steps this =
     (let v = valid_ctx_idx this; w = 1 - v
      in if v = 0 \<or> v = 1
         then ExecutionContext_Flush_steps this w @ SetValidContextIndex_steps w @
              CopyContextFrom_steps this v w
         else [])"

text \<open>
  Modelled from the spec: the commit point, the number of stores and flushes of a call up
  to and including the flush of \<open>valid_ctx_idx\<close>.
\<close>

definition commit_point :: "PersistentProcessInfo \<Rightarrow> nat" where
  "commit_point this =
     length (ExecutionContext_Flush_steps this (1 - valid_ctx_idx this)) + 2"

text \<open>
  Modelled from the spec: \<open>SwitchContext(stat_copied_bytes, stat_num_of_clflush)\<close> as a
  function, the four steps of the spec in order; the page table handed to the flush is the
  one \<open>cr3\<close> of the working context points to.
\<close>

definition SwitchContext :: "u64 \<times> u64 \<Rightarrow> machine \<Rightarrow> error + (u64 \<times> u64) \<times> machine" where
  "SwitchContext stats s =
     (case stats of (stat_copied_bytes, stat_num_of_clflush) \<Rightarrow>
        let v = valid_ctx_idx (info s); w = 1 - v
        in if \<not> (v = 0 \<or> v = 1) then Inl UNINITIALIZED
           else
             let working = ctx (info s) w;
                 flushed = ExecutionContext_Flush (cr3 (cpu_context working)) working
                             (stat_num_of_clflush, ram s);
                 s1 = exec (FlushContext w) (s\<lparr>ram := snd flushed\<rparr>);
                 s2 = SetValidContextIndex w s1
             in case CopyContextFrom (ctx (info s2) v) (ctx (info s2) w)
                       (stat_copied_bytes, ram s2) of
                  Inl e \<Rightarrow> Inl e
                | Inr (this', copied, ram3) \<Rightarrow>
                    Inr ((copied, fst flushed),
                         s2\<lparr>info := set_ctx v this' (info s2), ram := ram3\<rparr>))"

text \<open>
  Modelled from the spec: power loss and the recovery on the next boot are not part of
  the sources at hand. The spec: a crash leaves what was flushed; recovery looks for
  records with a matching signature; where \<open>valid_ctx_idx \<in> {0,1}\<close> it treats
  \<open>ctx[valid_ctx_idx]\<close> as the resumable snapshot; a record with a matching signature
  and an out-of-range index is rejected with \<open>CORRUPT_PMEM\<close>; a record without the
  signature is skipped.
\<close>

definition crash :: "machine \<Rightarrow> machine" where
  "crash s =
     \<lparr>info = info_persisted s, info_persisted = info_persisted s,
      ram = \<lparr>bytes = persisted (ram s), persisted = persisted (ram s)\<rparr>\<rparr>"

text \<open>
  Modelled from the spec: the outcome of recovery for one record, and recovery itself,
  which reads what persistent memory holds after the crash.
\<close>

datatype recovery = Skipped | Rejected error | Resumed int ExecutionContext

definition recover :: "machine \<Rightarrow> recovery" where
  "recover s =
     (if \<not> IsValid (info s) then Skipped
      else if valid_ctx_idx (info s) = 0 \<or> valid_ctx_idx (info s) = 1
           then Resumed (valid_ctx_idx (info s)) (ctx (info s) (valid_ctx_idx (info s)))
           else Rejected CORRUPT_PMEM)"

definition crash_after :: "nat \<Rightarrow> machine \<Rightarrow> machine" where
  "crash_after k s = crash (run (take k (SwitchContext_steps (info s))) s)"

text \<open>
  What a step may touch. Before the commit the steps only flush bytes of a region
  \<open>R\<close>, flush the context \<open>w\<close> and store to \<open>valid_ctx_idx\<close>; after it they only
  store to visible state and flush bytes of a region \<open>R\<close>.
\<close>

fun flushes_within :: "(u64 \<Rightarrow> bool) \<Rightarrow> int \<Rightarrow> step \<Rightarrow> bool" where
  "flushes_within R w (FlushByte a) = R a"
| "flushes_within R w (FlushContext i) = (i = w)"
| "flushes_within R w (StoreValidIndex i) = True"
| "flushes_within R w FlushValidIndex = False"
| "flushes_within R w (CopyCPUContext d f) = False"
| "flushes_within R w (StoreCR3 d x) = False"
| "flushes_within R w (StoreByte d a) = False"

fun writes_within :: "(u64 \<Rightarrow> bool) \<Rightarrow> step \<Rightarrow> bool" where
  "writes_within R (FlushByte a) = R a"
| "writes_within R (FlushContext i) = False"
| "writes_within R (StoreValidIndex i) = False"
| "writes_within R FlushValidIndex = False"
| "writes_within R (CopyCPUContext d f) = True"
| "writes_within R (StoreCR3 d x) = True"
| "writes_within R (StoreByte d a) = True"

definition flushed_region :: "ProcessMappingInfo \<Rightarrow> u64 \<Rightarrow> bool" where
  "flushed_region mi a \<longleftrightarrow>
     in_segment (code mi) a \<or> in_segment (data mi) a \<or> in_segment (heap mi) a"

definition copied_region :: "ProcessMappingInfo \<Rightarrow> u64 \<Rightarrow> bool" where
  "copied_region mi a \<longleftrightarrow> in_segment (data mi) a \<or> in_segment (stack mi) a"

text \<open>
  Two checkpoints of a persistent process. In \<open>first_machine\<close> slot 0 (\<open>ctx_A\<close>) is
  the valid context and slot 1 (\<open>ctx_B\<close>) the working one, in which the process has run:
  its \<open>rip\<close> is \<open>0x1111\<close>, every byte of its data segment holds \<open>0xD1\<close> and every
  byte of its stack segment \<open>0x51\<close>; nothing of this is durable yet, persistent memory
  holds zeroes. \<open>first_checkpoint\<close> is the state after a complete \<open>SwitchContext\<close>.
  Then the process runs on in the new working slot 0 (\<open>process_runs\<close>): the interrupt
  frame saved there has \<open>rip\<close> \<open>0x2222\<close>, the process has stored \<open>0xD2\<close> to the byte
  at \<open>0x101abc\<close> of its data segment and \<open>0x52\<close> to the byte at \<open>0x102abc\<close> of its
  stack segment. \<open>second_machine\<close> is the state in which the second checkpoint starts.
\<close>

definition with_rip :: "u64 \<Rightarrow> ExecutionContext \<Rightarrow> ExecutionContext" where
  "with_rip r c =
     c\<lparr>cpu_context := (cpu_context c)\<lparr>int_ctx := (int_ctx (cpu_context c))\<lparr>rip := r\<rparr>\<rparr>\<rparr>"

definition first_machine :: machine where
  "first_machine =
     \<lparr>info = \<lparr>ctx0 = ctx_A, ctx1 = with_rip 0x1111 ctx_B, valid_ctx_idx = 0,
              signature = kSignature\<rparr>,
      info_persisted = \<lparr>ctx0 = ctx_A, ctx1 = ctx_B, valid_ctx_idx = 0, signature = kSignature\<rparr>,
      ram = \<lparr>bytes = (\<lambda>a. if in_segment (data (map_info ctx_B)) a then 0xD1
                          else if in_segment (stack (map_info ctx_B)) a then 0x51 else 0),
             persisted = (\<lambda>a. 0)\<rparr>\<rparr>"

definition first_checkpoint :: machine where
  "first_checkpoint = run (SwitchContext_steps (info first_machine)) first_machine"

definition process_runs :: "machine \<Rightarrow> machine" where
  "process_runs s =
     s\<lparr>info := set_ctx 0 (with_rip 0x2222 (ctx (info s) 0)) (info s),
       ram := store_byte 0x102abc 0x52 (store_byte 0x101abc 0xD2 (ram s))\<rparr>"

definition second_machine :: machine where
  "second_machine = process_runs first_checkpoint"

section \<open>Properties\<close>

subsection \<open>SetRegisters\<close>

text \<open>
  C6. After any call of \<open>SetRegisters\<close> the stored \<open>rflags\<close> is the argument OR'd
  with 2, so bit 1 of it is set, and \<open>heap_used_size\<close> is 0, whatever the arguments and
  the previous contents of the context are.
\<close>

theorem SetRegisters_rflags_heap:
  "rflags (int_ctx (cpu_context (SetRegisters rip_arg cs_arg rsp_arg ss_arg cr3_arg rflags_arg kernel_rsp_arg this)))
     = rflags_arg OR 2
   \<and> bit (rflags (int_ctx (cpu_context (SetRegisters rip_arg cs_arg rsp_arg ss_arg cr3_arg rflags_arg kernel_rsp_arg this)))) 1
   \<and> heap_used_size (SetRegisters rip_arg cs_arg rsp_arg ss_arg cr3_arg rflags_arg kernel_rsp_arg this) = 0"
  by (simp add: SetRegisters_def bit_or_iff)

subsection \<open>ExpandHeap\<close>

lemma ExpandHeap_limit: "ExpandHeap d this = Inr this' \<Longrightarrow> heap_limit this' = heap_limit this"
  by (auto simp: ExpandHeap_def heap_limit_def Let_def split: if_splits)

lemma ExpandHeap_ok:
  assumes "0 \<le> uint (heap_used_size this) + sint d"
      and "uint (heap_used_size this) + sint d \<le> heap_limit this"
  shows "\<exists>this'. ExpandHeap d this = Inr this' \<and>
           uint (heap_used_size this') = uint (heap_used_size this) + sint d \<and>
           heap_limit this' = heap_limit this"
proof -
  have "heap_limit this < 2 ^ 64"
    unfolding heap_limit_def using uint_lt2p [of "map_size (heap (map_info this))"] by simp
  then have "take_bit 64 (uint (heap_used_size this) + sint d)
               = uint (heap_used_size this) + sint d"
    using assms by (simp add: take_bit_int_eq_self)
  then have "uint (word_of_int (uint (heap_used_size this) + sint d) :: u64)
               = uint (heap_used_size this) + sint d"
    unfolding uint_word_of_int_eq by simp
  then show ?thesis
    using assms by (simp add: ExpandHeap_def Let_def heap_limit_def)
qed

lemma ExpandHeap_calls_in_bounds:
  "sums_in_bounds (heap_limit this) (uint (heap_used_size this)) (map sint ds) \<Longrightarrow>
   fst (ExpandHeap_calls ds this) = replicate (length ds) None \<and>
   uint (heap_used_size (snd (ExpandHeap_calls ds this)))
     = uint (heap_used_size this) + sum_list (map sint ds) \<and>
   heap_limit (snd (ExpandHeap_calls ds this)) = heap_limit this"
proof (induction ds arbitrary: this)
  case Nil
  then show ?case by simp
next
  case (Cons d ds)
  from Cons.prems obtain this' where
    ok: "ExpandHeap d this = Inr this'"
    and used: "uint (heap_used_size this') = uint (heap_used_size this) + sint d"
    and lim: "heap_limit this' = heap_limit this"
    using ExpandHeap_ok [of this d] by auto
  from Cons.prems have "sums_in_bounds (heap_limit this') (uint (heap_used_size this')) (map sint ds)"
    by (simp add: used lim)
  from Cons.IH [OF this] show ?case
    by (simp add: ok used lim case_prod_beta)
qed

lemma ExpandHeap_violation:
  assumes "\<not> (0 \<le> uint (heap_used_size this) + sint d
              \<and> uint (heap_used_size this) + sint d \<le> heap_limit this)"
  shows "ExpandHeap d this =
           Inl (if uint (heap_used_size this) + sint d < 0 then HEAP_UNDERFLOW else HEAP_OVERFLOW)"
  using assms by (auto simp: ExpandHeap_def Let_def heap_limit_def)

lemma ExpandHeap_calls_append:
  "ExpandHeap_calls (xs @ ys) this =
     (fst (ExpandHeap_calls xs this) @ fst (ExpandHeap_calls ys (snd (ExpandHeap_calls xs this))),
      snd (ExpandHeap_calls ys (snd (ExpandHeap_calls xs this))))"
  by (induction xs arbitrary: this) (auto split: sum.splits prod.splits)

text \<open>
  C5, as amended. Let \<open>h0\<close> be the counter before a sequence of \<open>ExpandHeap\<close> calls.
  If no partial sum of the deltas, started at \<open>h0\<close>, goes negative or exceeds
  \<open>heap.map_size\<close>, every call succeeds and the final \<open>heap_used_size\<close> is \<open>h0\<close>
  plus the sum of the deltas. If the calls \<open>pre\<close> stay in bounds and the next delta
  \<open>d\<close> would leave them, that call fails, with \<open>HEAP_UNDERFLOW\<close> when the sum would be
  negative and \<open>HEAP_OVERFLOW\<close> when it would exceed \<open>heap.map_size\<close>, and it leaves
  the context, and so \<open>heap_used_size\<close>, unchanged.
\<close>

theorem ExpandHeap_bounds:
  fixes this :: ExecutionContext
  defines "h0 \<equiv> uint (heap_used_size this)"
  shows "(sums_in_bounds (heap_limit this) h0 (map sint ds) \<longrightarrow>
            fst (ExpandHeap_calls ds this) = replicate (length ds) None \<and>
            uint (heap_used_size (snd (ExpandHeap_calls ds this))) = h0 + sum_list (map sint ds))
       \<and> (sums_in_bounds (heap_limit this) h0 (map sint pre) \<and>
          \<not> (0 \<le> h0 + sum_list (map sint pre) + sint d
             \<and> h0 + sum_list (map sint pre) + sint d \<le> heap_limit this) \<longrightarrow>
            ExpandHeap d (snd (ExpandHeap_calls pre this))
              = Inl (if h0 + sum_list (map sint pre) + sint d < 0
                     then HEAP_UNDERFLOW else HEAP_OVERFLOW) \<and>
            snd (ExpandHeap_calls (pre @ [d]) this) = snd (ExpandHeap_calls pre this) \<and>
            uint (heap_used_size (snd (ExpandHeap_calls (pre @ [d]) this)))
              = h0 + sum_list (map sint pre))"
proof -
  let ?mid = "snd (ExpandHeap_calls pre this)"
  have all_ok: "fst (ExpandHeap_calls ds this) = replicate (length ds) None \<and>
      uint (heap_used_size (snd (ExpandHeap_calls ds this))) = h0 + sum_list (map sint ds)"
    if "sums_in_bounds (heap_limit this) h0 (map sint ds)"
    using that ExpandHeap_calls_in_bounds [of this ds] by (simp add: h0_def)
  have first_bad: "ExpandHeap d ?mid
        = Inl (if h0 + sum_list (map sint pre) + sint d < 0 then HEAP_UNDERFLOW else HEAP_OVERFLOW) \<and>
      snd (ExpandHeap_calls (pre @ [d]) this) = ?mid \<and>
      uint (heap_used_size (snd (ExpandHeap_calls (pre @ [d]) this))) = h0 + sum_list (map sint pre)"
    if inb: "sums_in_bounds (heap_limit this) h0 (map sint pre)"
      and bad: "\<not> (0 \<le> h0 + sum_list (map sint pre) + sint d
             \<and> h0 + sum_list (map sint pre) + sint d \<le> heap_limit this)"
  proof -
    from inb have pre: "uint (heap_used_size ?mid) = h0 + sum_list (map sint pre)"
      and lim: "heap_limit ?mid = heap_limit this"
      using ExpandHeap_calls_in_bounds [of this pre] by (simp_all add: h0_def)
    from bad have viol: "\<not> (0 \<le> uint (heap_used_size ?mid) + sint d
                \<and> uint (heap_used_size ?mid) + sint d \<le> heap_limit ?mid)"
      by (simp add: pre lim)
    have fails: "ExpandHeap d ?mid
        = Inl (if h0 + sum_list (map sint pre) + sint d < 0 then HEAP_UNDERFLOW else HEAP_OVERFLOW)"
      using ExpandHeap_violation [OF viol] by (simp add: pre)
    have same: "snd (ExpandHeap_calls (pre @ [d]) this) = ?mid"
      by (simp add: ExpandHeap_calls_append fails)
    show ?thesis using fails same pre by simp
  qed
  show ?thesis using all_ok first_bad by blast
qed

theorem ExpandHeap_bounds_witness:
  "sums_in_bounds (heap_limit (heap_ctx 0 4096)) (uint (heap_used_size (heap_ctx 0 4096)))
     (map sint [4096 :: u64])
   \<and> fst (ExpandHeap_calls [4096] (heap_ctx 0 4096)) = [None]
   \<and> uint (heap_used_size (snd (ExpandHeap_calls [4096] (heap_ctx 0 4096)))) = 4096
   \<and> \<not> (0 \<le> uint (heap_used_size (heap_ctx 0 4096)) + sum_list (map sint [4096 :: u64]) + sint (1 :: u64)
         \<and> uint (heap_used_size (heap_ctx 0 4096)) + sum_list (map sint [4096 :: u64]) + sint (1 :: u64)
             \<le> heap_limit (heap_ctx 0 4096))
   \<and> ExpandHeap 1 (snd (ExpandHeap_calls [4096] (heap_ctx 0 4096))) = Inl HEAP_OVERFLOW
   \<and> uint (heap_used_size (snd (ExpandHeap_calls [4096, 1] (heap_ctx 0 4096)))) = 4096"
  using ExpandHeap_bounds [of "heap_ctx 0 4096" "[4096]" "[4096]" 1]
  by (simp add: ExpandHeap_def heap_ctx_def Let_def heap_limit_def)

text \<open>
  The claim C5 as stated is an equivalence: the final \<open>heap_used_size\<close> equals the sum
  of the deltas if and only if no partial sum leaves the bounds. With a heap segment of
  4096 bytes and the deltas \<open>+5000, -5000\<close> both calls fail, the counter stays 0, which
  is the sum of the deltas, and yet the first partial sum exceeds \<open>heap.map_size\<close>.
\<close>

theorem ExpandHeap_iff_counterexample:
  "uint (heap_used_size (snd (ExpandHeap_calls [5000, - 5000] (heap_ctx 0 4096))))
     = uint (heap_used_size (heap_ctx 0 4096)) + sum_list (map sint [5000, - 5000 :: u64])
   \<and> \<not> sums_in_bounds (heap_limit (heap_ctx 0 4096)) (uint (heap_used_size (heap_ctx 0 4096)))
          (map sint [5000, - 5000 :: u64])"
  by (simp add: ExpandHeap_def heap_ctx_def Let_def heap_limit_def)

subsection \<open>RingBuffer\<close>

lemma mod_lt2: "(a::nat) < 2 * n \<Longrightarrow> a mod n = (if a < n then a else a - n)"
  by (simp add: le_mod_geq)

lemma rb_wf_Push: "rb_wf n rb \<Longrightarrow> rb_wf n (Push n v rb)"
  by (simp add: rb_wf_def Push_def Let_def)

lemma rb_wf_Pop: "rb_wf n rb \<Longrightarrow> rb_wf n (snd (Pop n d rb))"
  by (simp add: rb_wf_def Pop_def Let_def)

lemma full_iff:
  "rb_wf n rb \<Longrightarrow> (writep rb + 1) mod n = readp rb \<longleftrightarrow> held_count n rb = n - 1"
  by (auto simp: rb_wf_def held_count_def mod_lt2 split: if_splits)

lemma count_eq:
  "r < n \<Longrightarrow> w < n \<Longrightarrow> (w + n - r) mod n = (if r \<le> w then w - r else w + n - (r::nat))"
  by (simp add: mod_lt2)

lemma empty_iff:
  "rb_wf n rb \<Longrightarrow> IsEmpty rb \<longleftrightarrow> held_count n rb = 0"
  by (auto simp: rb_wf_def held_count_def IsEmpty_def count_eq)

lemma held_count_Push:
  "rb_wf n rb \<Longrightarrow> (writep rb + 1) mod n \<noteq> readp rb \<Longrightarrow>
   held_count n (Push n v rb) = held_count n rb + 1"
  by (auto simp: rb_wf_def held_count_def Push_def Let_def mod_lt2 split: if_splits)

lemma slot_of_count:
  "rb_wf n rb \<Longrightarrow> (readp rb + held_count n rb) mod n = writep rb"
  by (auto simp: rb_wf_def held_count_def mod_lt2 split: if_splits)

lemma slot_before_count:
  "rb_wf n rb \<Longrightarrow> i < held_count n rb \<Longrightarrow> (readp rb + i) mod n \<noteq> writep rb"
  by (auto simp: rb_wf_def held_count_def mod_lt2 split: if_splits)

lemma held_Push:
  assumes wf: "rb_wf n rb" and nf: "(writep rb + 1) mod n \<noteq> readp rb"
  shows "held n (Push n v rb) = held n rb @ [v]"
proof -
  let ?c = "held_count n rb"
  have els: "elements (Push n v rb) = (elements rb)[writep rb := v]"
    and rp: "readp (Push n v rb) = readp rb"
    using nf by (simp_all add: Push_def Let_def)
  have keep: "(elements rb)[writep rb := v] ! ((readp rb + i) mod n)
                = elements rb ! ((readp rb + i) mod n)" if "i < ?c" for i
    using slot_before_count [OF wf that] by (metis nth_list_update_neq)
  have old: "map (\<lambda>i. (elements rb)[writep rb := v] ! ((readp rb + i) mod n)) [0..<?c]
             = map (\<lambda>i. elements rb ! ((readp rb + i) mod n)) [0..<?c]"
    using keep by simp
  have new: "(elements rb)[writep rb := v] ! ((readp rb + ?c) mod n) = v"
    using wf by (simp add: slot_of_count [OF wf] rb_wf_def)
  show ?thesis
    using old new by (simp add: held_def held_count_Push [OF wf nf] els rp)
qed

lemma held_count_Pop:
  "rb_wf n rb \<Longrightarrow> \<not> IsEmpty rb \<Longrightarrow>
   held_count n (snd (Pop n d rb)) = held_count n rb - 1"
  by (auto simp: rb_wf_def held_count_def Pop_def Let_def IsEmpty_def mod_lt2 split: if_splits)

lemma held_Pop:
  assumes wf: "rb_wf n rb" and ne: "\<not> IsEmpty rb"
  shows "fst (Pop n d rb) = hd (held n rb) \<and> held n (snd (Pop n d rb)) = tl (held n rb)"
proof -
  let ?c = "held_count n rb"
  have pos: "0 < ?c" using empty_iff [OF wf] ne by simp
  have rn: "readp rb mod n = readp rb" using wf by (simp add: rb_wf_def)
  have upt: "[0..<?c] = 0 # map Suc [0..<?c - 1]"
    using pos by (metis Suc_pred' map_Suc_upt upt_conv_Cons)
  have hd_eq: "hd (held n rb) = elements rb ! readp rb"
    by (subst held_def, subst upt) (simp add: rn)
  have tl_eq: "tl (held n rb) = map (\<lambda>i. elements rb ! ((readp rb + Suc i) mod n)) [0..<?c - 1]"
    by (subst held_def, subst upt) (simp add: comp_def)
  have shift: "(Suc (readp rb) mod n + i) mod n = Suc (readp rb + i) mod n" for i
    by (metis add_Suc mod_add_left_eq)
  have "held n (snd (Pop n d rb)) = map (\<lambda>i. elements rb ! ((readp rb + Suc i) mod n)) [0..<?c - 1]"
    using ne by (simp add: held_def held_count_Pop [OF wf ne]) (simp add: Pop_def Let_def shift)
  moreover have "fst (Pop n d rb) = elements rb ! readp rb"
    using ne by (simp add: Pop_def Let_def)
  ultimately show ?thesis by (simp add: hd_eq tl_eq)
qed

lemma held_length: "length (held n rb) = held_count n rb"
  by (simp add: held_def)

lemma rb_apply_refines:
  assumes wf: "rb_wf n rb"
  shows "rb_wf n (rb_apply n d rb c) \<and> held n (rb_apply n d rb c) = fifo_apply n (held n rb) c"
proof (cases c)
  case (CallPush v)
  show ?thesis
  proof (cases "(writep rb + 1) mod n = readp rb")
    case True
    then have "Push n v rb = rb" by (simp add: Push_def)
    moreover have "length (held n rb) = n - 1"
      using True full_iff [OF wf] by (simp add: held_length)
    ultimately show ?thesis using wf CallPush by simp
  next
    case False
    then have "length (held n rb) \<noteq> n - 1"
      using full_iff [OF wf] by (simp add: held_length)
    then show ?thesis
      using CallPush held_Push [OF wf False] rb_wf_Push [OF wf] by simp
  qed
next
  case CallPop
  show ?thesis
  proof (cases "IsEmpty rb")
    case True
    then have "snd (Pop n d rb) = rb" by (simp add: Pop_def)
    moreover have "held n rb = []"
      using True empty_iff [OF wf] by (simp add: held_def)
    ultimately show ?thesis using wf CallPop by simp
  next
    case False
    then show ?thesis
      using CallPop held_Pop [OF wf False] rb_wf_Pop [OF wf] by simp
  qed
qed

lemma rb_run_refines:
  "rb_wf n rb \<Longrightarrow>
   rb_wf n (foldl (rb_apply n d) rb reqs) \<and>
   held n (foldl (rb_apply n d) rb reqs) = foldl (fifo_apply n) (held n rb) reqs"
proof (induction reqs arbitrary: rb)
  case Nil
  then show ?case by simp
next
  case (Cons c reqs)
  from rb_apply_refines [OF Cons.prems, of d c]
  show ?case using Cons.IH [of "rb_apply n d rb c"] by simp
qed

lemma fifo_bound: "length q \<le> n - 1 \<Longrightarrow> length (foldl (fifo_apply n) q reqs) \<le> n - 1"
proof (induction reqs arbitrary: q)
  case Nil
  then show ?case by simp
next
  case (Cons c reqs)
  have "length (fifo_apply n q c) \<le> n - 1"
    using Cons.prems by (cases c) auto
  then show ?case using Cons.IH by simp
qed

lemma rb_new_wf: "0 < length els \<Longrightarrow> rb_wf (length els) (RingBuffer_new els)"
  by (simp add: rb_wf_def RingBuffer_new_def)

lemma held_new: "0 < length els \<Longrightarrow> held (length els) (RingBuffer_new els) = []"
  by (simp add: held_def held_count_def RingBuffer_new_def)

text \<open>
  C10. For a buffer of \<open>n > 0\<close> slots: a \<open>Push\<close> when \<open>(writep_ + 1) mod n\<close> equals
  \<open>readp_\<close> returns the buffer unchanged, so the pushed value is discarded; a \<open>Pop\<close>
  when the buffer is empty returns the default value and the buffer unchanged; and after
  any sequence of calls on a new buffer the buffer holds what a first-in first-out queue
  of capacity \<open>n - 1\<close> that drops on overflow holds, so never more than \<open>n - 1\<close>
  elements.
\<close>

theorem RingBuffer_full_push_empty_pop:
  assumes "0 < n" and "length uninitialised = n"
  shows "((writep rb + 1) mod n = readp rb \<longrightarrow> Push n v rb = rb)
       \<and> (IsEmpty rb \<longrightarrow> Pop n dflt rb = (dflt, rb))
       \<and> held n (foldl (rb_apply n dflt) (RingBuffer_new uninitialised) calls)
           = foldl (fifo_apply n) [] calls
       \<and> length (held n (foldl (rb_apply n dflt) (RingBuffer_new uninitialised) calls)) \<le> n - 1"
proof -
  have wf: "rb_wf n (RingBuffer_new uninitialised)"
    using assms rb_new_wf [of uninitialised] by simp
  have h0: "held n (RingBuffer_new uninitialised) = []"
    using assms held_new [of uninitialised] by simp
  have ref: "held n (foldl (rb_apply n dflt) (RingBuffer_new uninitialised) calls)
              = foldl (fifo_apply n) [] calls"
    using rb_run_refines [OF wf, of dflt calls] h0 by simp
  have "length (foldl (fifo_apply n) ([] :: 'a list) calls) \<le> n - 1"
    by (rule fifo_bound) simp
  then show ?thesis
    using ref by (simp add: Push_def Pop_def)
qed

theorem RingBuffer_full_push_empty_pop_witness:
  "(let rb = foldl (rb_apply 3 (0::nat)) (RingBuffer_new [0, 0, 0]) [CallPush 7, CallPush 8]
    in (writep rb + 1) mod 3 = readp rb \<and> Push 3 9 rb = rb
       \<and> held 3 (foldl (rb_apply 3 (0::nat)) (RingBuffer_new [0, 0, 0]) [CallPush 7, CallPush 8, CallPush 9]) = [7, 8::nat])
   \<and> IsEmpty (RingBuffer_new [0::nat, 0, 0])
   \<and> Pop 3 0 (RingBuffer_new [0::nat, 0, 0]) = (0, RingBuffer_new [0, 0, 0])"
  using RingBuffer_full_push_empty_pop [of 3 "[0::nat, 0, 0]"
          "foldl (rb_apply 3 (0::nat)) (RingBuffer_new [0, 0, 0]) [CallPush 7, CallPush 8]" 9 0
          "[CallPush 7, CallPush 8, CallPush 9]"]
        RingBuffer_full_push_empty_pop [of 3 "[0::nat, 0, 0]" "RingBuffer_new [0::nat, 0, 0]" 9 0 "[]"]
  by (simp add: Push_def Pop_def IsEmpty_def RingBuffer_new_def Let_def held_def held_count_def)

subsection \<open>The checksum loop of the UDP packet builder\<close>

lemma checksum_for_unfold:
  "checksum_for 0 p s vs =
     (s + 5 * (drop_bit 8 (ucast p) OR (push_bit 8 (ucast p) AND 0xff00)),
      vs @ [(0, False), (1, False), (2, False), (3, False), (4, False)])"
  by simp

lemma drop16: "drop_bit 16 (ucast (c :: u16) :: u32) = 0"
  by (rule bit_word_eqI) (auto simp: bit_simps dest: bit_imp_le_length)

lemma CalcAndSetChecksum_returns:
  "CalcAndSetChecksum this =
     Some (this\<lparr>checksum := ucast (5 * (drop_bit 8 (ucast (first_header_word this))
                                  OR (push_bit 8 (ucast (first_header_word this)) AND 0xff00)) :: u32)\<rparr>)"
  by (simp add: CalcAndSetChecksum_def Let_def checksum_for_unfold checksum_while.simps drop16)

text \<open>
  C9. For every packet the \<open>for\<close> loop of \<open>CalcAndSetChecksum\<close> runs its body exactly
  five times, with \<open>i\<close> = 0, 1, 2, 3, 4, and in none of the iterations the comparison
  \<open>i == 5\<close> holds: the branch that would skip the checksum field is never taken.
\<close>

theorem CalcAndSetChecksum_dead_branch:
  "CalcAndSetChecksum_iterations this
     = [(0, False), (1, False), (2, False), (3, False), (4, False)]
   \<and> length (CalcAndSetChecksum_iterations this) = 5"
  by (simp add: CalcAndSetChecksum_iterations_def checksum_for_unfold)


subsection \<open>Round-robin scheduling\<close>

lemma order_split:
  assumes "c < m"
  shows "map (\<lambda>i. (current_plus c i) mod m) [0..<m] = [Suc c..<m] @ [0..<Suc c]"
proof (rule nth_equalityI)
  show "length (map (\<lambda>i. (current_plus c i) mod m) [0..<m]) = length ([Suc c..<m] @ [0..<Suc c])"
    using assms by simp
next
  fix i assume "i < length (map (\<lambda>i. (current_plus c i) mod m) [0..<m])"
  then have i: "i < m" by simp
  then show "map (\<lambda>i. (current_plus c i) mod m) [0..<m] ! i = ([Suc c..<m] @ [0..<Suc c]) ! i"
    using assms by (auto simp: nth_append mod_lt2 current_plus_def)
qed

lemma upt_split: "x < m \<Longrightarrow> [0..<m] = [0..<Suc x] @ [Suc x..<m]"
  using upt_add_eq_append [of 0 "Suc x" "m - Suc x"] by simp

lemma filter_upt_split:
  "x < m \<Longrightarrow> filter P [0..<m] = filter P [0..<Suc x] @ filter P [Suc x..<m]"
  by (metis filter_append upt_split)

lemma filtered_order:
  assumes "c < m"
  shows "filter P (map (\<lambda>i. (current_plus c i) mod m) [0..<m])
           = rotate (length (filter P [0..<Suc c])) (filter P [0..<m])"
  by (simp only: order_split [OF assms] filter_upt_split [OF assms, of P] filter_append rotate_append)

lemma slots_strict: "sorted_wrt (<) (filter P [0..<m])"
  by (rule sorted_wrt_filter) simp

lemma slots_below:
  assumes q: "q < length (filter P [0..<m])"
  shows "length (filter P [0..<Suc (filter P [0..<m] ! q)]) = Suc q"
proof -
  define E where "E = filter P [0..<m]"
  define x where "x = E ! q"
  define A where "A = filter P [0..<Suc x]"
  define B where "B = filter P [Suc x..<m]"
  have qE: "q < length E" using q by (simp add: E_def)
  have xin: "x \<in> set E" unfolding x_def using qE by (rule nth_mem)
  then have xm: "x < m" and Px: "P x" by (simp_all add: E_def)
  have E: "E = A @ B" unfolding E_def A_def B_def using xm by (rule filter_upt_split)
  have dist: "distinct E" by (simp add: E_def)
  have strict: "sorted_wrt (<) E" unfolding E_def by (rule slots_strict)
  have Ale: "y \<le> x" if "y \<in> set A" for y
    using that by (auto simp: A_def split: if_splits)
  have "x \<in> set A" using Px by (simp add: A_def)
  then obtain i where i: "i < length A" "A ! i = x" by (metis in_set_conv_nth)
  have "E ! i = A ! i" using i(1) by (simp add: E nth_append)
  then have "E ! i = x" using i(2) by simp
  then have "E ! i = E ! q" by (simp only: x_def)
  moreover have "i < length E" using i(1) by (simp add: E)
  ultimately have "i = q" using dist qE by (simp only: nth_eq_iff_index_eq)
  then have lo: "q < length A" using i(1) by simp
  have "\<not> Suc q < length A"
  proof
    assume hi: "Suc q < length A"
    then have "A ! Suc q \<le> x" by (intro Ale nth_mem)
    moreover have "E ! Suc q = A ! Suc q" using hi by (simp add: E nth_append)
    moreover have "E ! q < E ! Suc q"
      using sorted_wrt_nth_less [OF strict, of q "Suc q"] hi by (simp add: E)
    ultimately show False unfolding x_def by linarith
  qed
  then have "length A = Suc q" using lo by simp
  then show ?thesis by (simp only: A_def x_def E_def)
qed

lemma SwitchProcess_selects:
  assumes c: "current sched < length (process sched)"
      and ne: "runnable_slots sched \<noteq> []"
  shows "SwitchProcess sched =
           (Some (process sched ! (runnable_slots sched !
                    (length (filter (\<lambda>j. runnable (process sched ! j)) [0..<Suc (current sched)])
                       mod length (runnable_slots sched)))),
            sched\<lparr>current := runnable_slots sched !
                    (length (filter (\<lambda>j. runnable (process sched ! j)) [0..<Suc (current sched)])
                       mod length (runnable_slots sched))\<rparr>)"
proof -
  let ?P = "\<lambda>j. runnable (process sched ! j)"
  let ?a = "length (filter ?P [0..<Suc (current sched)])"
  have f: "filter ?P (round_robin_order sched) = rotate ?a (runnable_slots sched)"
    unfolding round_robin_order_def Let_def runnable_slots_def
    by (rule filtered_order [OF c])
  have rne: "rotate ?a (runnable_slots sched) \<noteq> []" using ne by simp
  then obtain j js where js: "rotate ?a (runnable_slots sched) = j # js"
    by (cases "rotate ?a (runnable_slots sched)") auto
  have "j = hd (rotate ?a (runnable_slots sched))" using js by simp
  then have j: "j = runnable_slots sched ! (?a mod length (runnable_slots sched))"
    using hd_rotate_conv_nth [OF ne, of ?a] by simp
  show ?thesis
    unfolding SwitchProcess_def f js using j by simp
qed

lemma switch_calls_cycle:
  assumes "current sched < length (process sched)" and "runnable_slots sched \<noteq> []"
  shows "switch_calls k sched =
           map (\<lambda>t. Some (runnable_slots sched !
                            ((slots_upto_current sched + t) mod length (runnable_slots sched))))
               [0..<k]"
  using assms
proof (induction k arbitrary: sched)
  case 0
  then show ?case by simp
next
  case (Suc k)
  let ?E = "runnable_slots sched"
  let ?n = "length ?E"
  let ?a = "slots_upto_current sched"
  let ?c' = "?E ! (?a mod ?n)"
  let ?sched' = "sched\<lparr>current := ?c'\<rparr>"
  have npos: "0 < ?n" using Suc.prems(2) by simp
  have sel: "SwitchProcess sched = (Some (process sched ! ?c'), ?sched')"
    using SwitchProcess_selects [OF Suc.prems] by (simp add: slots_upto_current_def)
  have E': "runnable_slots ?sched' = ?E" by (simp add: runnable_slots_def)
  have q: "?a mod ?n < length (filter (\<lambda>j. runnable (process sched ! j)) [0..<length (process sched)])"
    using npos by (simp add: runnable_slots_def)
  have "?c' \<in> set ?E" using npos by simp
  then have c'm: "current ?sched' < length (process ?sched')"
    by (simp add: runnable_slots_def)
  have a': "slots_upto_current ?sched' = Suc (?a mod ?n)"
    using slots_below [OF q] by (simp add: slots_upto_current_def runnable_slots_def)
  have ne': "runnable_slots ?sched' \<noteq> []" using Suc.prems(2) by (simp add: E')
  have ih: "switch_calls k ?sched' =
      map (\<lambda>t. Some (?E ! ((Suc (?a mod ?n) + t) mod ?n))) [0..<k]"
    using Suc.IH [OF c'm ne'] by (simp only: E' a')
  have shift: "(Suc (?a mod ?n) + t) mod ?n = (?a + Suc t) mod ?n" for t
    by (metis add_Suc add_Suc_right mod_add_left_eq)
  show ?case
    by (simp only: switch_calls.simps sel prod.case option.case ih shift map_upt_Suc)
       (simp add: )
qed

lemma count_list_distinct: "distinct xs \<Longrightarrow> x \<in> set xs \<Longrightarrow> count_list xs x = 1"
  by (induction xs) auto

lemma count_list_rotate: "count_list (rotate r xs) x = count_list xs x"
proof -
  have "count_list (drop (r mod length xs) xs @ take (r mod length xs) xs) x
          = count_list (take (r mod length xs) xs @ drop (r mod length xs) xs) x"
    by (simp only: count_list_append add.commute)
  then show ?thesis by (simp only: rotate_drop_take append_take_drop_id)
qed

lemma cycle_block:
  assumes "xs \<noteq> []"
  shows "map (\<lambda>t. Some (xs ! ((a + t) mod length xs))) [b * length xs..<b * length xs + length xs]
           = map Some (rotate (a + b * length xs) xs)"
proof (rule nth_equalityI)
  show "length (map (\<lambda>t. Some (xs ! ((a + t) mod length xs))) [b * length xs..<b * length xs + length xs])
          = length (map Some (rotate (a + b * length xs) xs))"
    by simp
next
  fix i
  assume "i < length (map (\<lambda>t. Some (xs ! ((a + t) mod length xs))) [b * length xs..<b * length xs + length xs])"
  then have i: "i < length xs" by simp
  then show "map (\<lambda>t. Some (xs ! ((a + t) mod length xs))) [b * length xs..<b * length xs + length xs] ! i
               = map Some (rotate (a + b * length xs) xs) ! i"
    by (simp add: nth_rotate add.assoc)
qed

lemma cycle_count:
  assumes d: "distinct xs" and x: "x \<in> set xs"
  shows "count_list (map (\<lambda>t. Some (xs ! ((a + t) mod length xs))) [0..<length xs * k]) (Some x) = k"
proof (induction k)
  case 0
  then show ?case by simp
next
  case (Suc k)
  have ne: "xs \<noteq> []" using x by auto
  have e1: "length xs * Suc k = k * length xs + length xs" by simp
  have e2: "length xs * k = k * length xs" by simp
  have split: "[0..<length xs * Suc k] = [0..<length xs * k] @ [k * length xs..<k * length xs + length xs]"
    unfolding e1 e2 by (rule upt_add_eq_append) simp
  have "count_list (map Some (rotate (a + k * length xs) xs)) (Some x) = 1"
    using d x by (simp add: count_list_map_conv count_list_rotate count_list_distinct)
  then show ?case
    using Suc.IH by (simp only: split map_append count_list_append cycle_block [OF ne])
qed

lemma two_slots:
  assumes "length (process sched) = 2" "runnable (process sched ! 0)" "runnable (process sched ! 1)"
  shows "runnable_slots sched = [0, 1]"
proof -
  have "[0..<2] = [0, Suc 0]" by (simp add: upt_rec)
  then show ?thesis using assms by (simp add: runnable_slots_def)
qed

lemma order_set:
  assumes "c < m"
  shows "set (map (\<lambda>i. (current_plus c i) mod m) [0..<m]) = {0..<m}"
proof -
  have "set ([Suc c..<m] @ [0..<Suc c]) = {0..<m}" using assms by auto
  then show ?thesis by (simp only: order_split [OF assms])
qed

lemma SwitchProcess_none:
  assumes c: "current sched < length (process sched)"
      and r: "SwitchProcess sched = (None, sched')"
  shows "sched' = sched \<and> runnable_slots sched = []"
proof -
  let ?P = "\<lambda>j. runnable (process sched ! j)"
  have nil: "filter ?P (round_robin_order sched) = []"
    using r by (auto simp: SwitchProcess_def split: list.splits)
  then have "rotate (length (filter ?P [0..<Suc (current sched)])) (runnable_slots sched) = []"
    unfolding round_robin_order_def Let_def runnable_slots_def filtered_order [OF c] .
  then have "runnable_slots sched = []" by simp
  moreover have "sched' = sched" using r nil by (simp add: SwitchProcess_def)
  ultimately show ?thesis by simp
qed

lemma SwitchProcess_first_runnable:
  assumes r: "SwitchProcess sched = (Some proc, sched')"
  shows "runnable proc \<and> proc = process sched ! current sched' \<and> process sched' = process sched
       \<and> (\<exists>d < length (process sched).
             current sched' = (current sched + 1 + d) mod length (process sched)
           \<and> (\<forall>i < d. \<not> runnable
                  (process sched ! ((current sched + 1 + i) mod length (process sched)))))"
proof -
  let ?P = "\<lambda>j. runnable (process sched ! j)"
  let ?n = "length (process sched)"
  let ?ord = "round_robin_order sched"
  have len: "length ?ord = ?n" by (simp add: round_robin_order_def Let_def)
  have nth: "?ord ! i = (current sched + 1 + i) mod ?n" if "i < ?n" for i
    using that by (simp add: round_robin_order_def current_plus_def Let_def)
  from r obtain j js where f: "filter ?P ?ord = j # js"
    by (cases "filter ?P ?ord") (auto simp: SwitchProcess_def)
  then obtain us vs where split: "?ord = us @ j # vs" and skip: "\<forall>u \<in> set us. \<not> ?P u"
    and Pj: "?P j"
    unfolding filter_eq_Cons_iff by blast
  have res: "proc = process sched ! j" "sched' = sched\<lparr>current := j\<rparr>"
    using r f by (simp_all add: SwitchProcess_def)
  have "length ?ord = length us + Suc (length vs)" by (simp only: split length_append length_Cons)
  then have d: "length us < ?n" using len by linarith
  have "(us @ j # vs) ! length us = j" by simp
  then have "?ord ! length us = j" by (simp only: split)
  then have j: "j = (current sched + 1 + length us) mod ?n" using nth [OF d] by simp
  have before: "\<not> runnable (process sched ! ((current sched + 1 + i) mod ?n))" if "i < length us" for i
  proof -
    have "(us @ j # vs) ! i = us ! i" using that by (simp add: nth_append)
    then have "?ord ! i = us ! i" by (simp only: split)
    moreover have "i < ?n" using that d by simp
    ultimately have "us ! i = (current sched + 1 + i) mod ?n" using nth [of i] by simp
    moreover have "us ! i \<in> set us" using that by (rule nth_mem)
    ultimately have "(current sched + 1 + i) mod ?n \<in> set us" by simp
    then show ?thesis using skip by blast
  qed
  have ex: "\<exists>d < ?n. current sched' = (current sched + 1 + d) mod ?n
           \<and> (\<forall>i < d. \<not> runnable (process sched ! ((current sched + 1 + i) mod ?n)))"
  proof (intro exI conjI allI impI)
    show "length us < ?n" by (rule d)
    show "current sched' = (current sched + 1 + length us) mod ?n" using res(2) j by simp
    show "\<not> runnable (process sched ! ((current sched + 1 + i) mod ?n))" if "i < length us" for i
      using that by (rule before)
  qed
  have "runnable proc" using Pj res(1) by simp
  moreover have "proc = process sched ! current sched'" using res by simp
  moreover have "process sched' = process sched" using res(2) by simp
  ultimately show ?thesis using ex by (intro conjI)
qed


text \<open>
  C8, as amended. \<open>SwitchProcess\<close> selects the next process in round-robin order whose
  status is \<open>Running\<close> or \<open>Ready\<close>: the selected slot is the first one after the
  current slot, in insertion order and wrapping around, that holds a runnable process
  (every slot passed over holds a process that is not runnable); it becomes the current
  slot, and the table is unchanged; when no process is runnable none is selected and the
  scheduler is unchanged. Consecutive calls cycle through the runnable slots in
  insertion order. With exactly two registered processes, both runnable, six consecutive
  calls select them alternately, starting with the process that is not the current one.
  Over \<open>n * k\<close> consecutive calls, where \<open>n\<close> is the number of runnable processes,
  every runnable process is selected exactly \<open>k\<close> times.
\<close>

theorem SwitchProcess_round_robin:
  assumes wf: "current sched < length (process sched)"
  shows "(SwitchProcess sched = (None, sched') \<longrightarrow> sched' = sched \<and> runnable_slots sched = [])
       \<and> (SwitchProcess sched = (Some proc, sched') \<longrightarrow>
            runnable proc \<and> proc = process sched ! current sched' \<and> process sched' = process sched
          \<and> (\<exists>d < length (process sched).
                current sched' = (current sched + 1 + d) mod length (process sched)
              \<and> (\<forall>i < d. \<not> runnable
                     (process sched ! ((current sched + 1 + i) mod length (process sched))))))
       \<and> (runnable_slots sched \<noteq> [] \<longrightarrow>
            switch_calls k sched
              = map (\<lambda>t. Some (runnable_slots sched !
                               ((slots_upto_current sched + t) mod length (runnable_slots sched))))
                    [0..<k])
       \<and> (length (process sched) = 2 \<and> runnable (process sched ! 0) \<and> runnable (process sched ! 1) \<longrightarrow>
            switch_calls 6 sched
              = map Some [1 - current sched, current sched, 1 - current sched, current sched,
                          1 - current sched, current sched])
       \<and> (j \<in> set (runnable_slots sched) \<longrightarrow>
            count_list (switch_calls (length (runnable_slots sched) * n) sched) (Some j) = n)"
proof -
  have none: "SwitchProcess sched = (None, sched') \<longrightarrow> sched' = sched \<and> runnable_slots sched = []"
    using SwitchProcess_none [OF wf] by (rule impI)
  have some: "SwitchProcess sched = (Some proc, sched') \<longrightarrow>
            runnable proc \<and> proc = process sched ! current sched' \<and> process sched' = process sched
          \<and> (\<exists>d < length (process sched).
                current sched' = (current sched + 1 + d) mod length (process sched)
              \<and> (\<forall>i < d. \<not> runnable
                     (process sched ! ((current sched + 1 + i) mod length (process sched)))))"
    using SwitchProcess_first_runnable by (rule impI)
  have cycle: "runnable_slots sched \<noteq> [] \<longrightarrow>
            switch_calls k sched
              = map (\<lambda>t. Some (runnable_slots sched !
                               ((slots_upto_current sched + t) mod length (runnable_slots sched))))
                    [0..<k]"
    using switch_calls_cycle [OF wf] by (rule impI)
  have two: "length (process sched) = 2 \<and> runnable (process sched ! 0) \<and> runnable (process sched ! 1) \<longrightarrow>
            switch_calls 6 sched
              = map Some [1 - current sched, current sched, 1 - current sched, current sched,
                          1 - current sched, current sched]"
  proof (intro impI, elim conjE)
    assume len: "length (process sched) = 2"
      and r0: "runnable (process sched ! 0)" and r1: "runnable (process sched ! 1)"
    have E: "runnable_slots sched = [0, 1]" using len r0 r1 by (rule two_slots)
    have six: "[0..<6] = [0, 1, 2, 3, 4, 5]" by (simp add: upt_rec)
    have ne: "runnable_slots sched \<noteq> []" by (simp add: E)
    have n2: "length [0::nat, 1] = 2" by simp
    note cyc = switch_calls_cycle [OF wf ne, of 6]
    consider "current sched = 0" | "current sched = 1" using wf len by linarith
    then show "switch_calls 6 sched
              = map Some [1 - current sched, current sched, 1 - current sched, current sched,
                          1 - current sched, current sched]"
    proof cases
      case 1
      then have "slots_upto_current sched = 1" using r0 by (simp add: slots_upto_current_def)
      then show ?thesis unfolding cyc E n2 six using 1 by simp
    next
      case 2
      then have "slots_upto_current sched = 2" using r0 r1 by (simp add: slots_upto_current_def)
      then show ?thesis unfolding cyc E n2 six using 2 by simp
    qed
  qed
  have fair: "j \<in> set (runnable_slots sched) \<longrightarrow>
      count_list (switch_calls (length (runnable_slots sched) * n) sched) (Some j) = n"
  proof
    assume j: "j \<in> set (runnable_slots sched)"
    have ne: "runnable_slots sched \<noteq> []" using j by auto
    have d: "distinct (runnable_slots sched)" by (simp add: runnable_slots_def)
    show "count_list (switch_calls (length (runnable_slots sched) * n) sched) (Some j) = n"
      by (simp only: switch_calls_cycle [OF wf ne] cycle_count [OF d j])
  qed
  show ?thesis
    by (intro conjI none some cycle two fair)
qed

lemma two_process_sched_eq:
  "two_process_sched =
     \<lparr>process = [\<lparr>proc_id = 0, status = kRunning\<rparr>, \<lparr>proc_id = 1, status = kReady\<rparr>], current = 0\<rparr>"
  by (simp add: two_process_sched_def RegisterProcess_def Scheduler_new_def kNumberOfProcess_def)

lemma two_process_calls:
  "switch_calls 6 two_process_sched = [Some 1, Some 0, Some 1, Some 0, Some 1, Some 0]"
proof -
  have wf: "current two_process_sched < length (process two_process_sched)"
    by (simp add: two_process_sched_eq)
  have r: "runnable_slots two_process_sched = [0, 1]"
    by (rule two_slots) (simp_all add: two_process_sched_eq runnable_def)
  have ne: "runnable_slots two_process_sched \<noteq> []" by (simp add: r)
  have a: "slots_upto_current two_process_sched = 1"
    by (simp add: slots_upto_current_def two_process_sched_eq runnable_def)
  have six: "[0..<6] = [0, 1, 2, 3, 4, 5]" by (simp add: upt_rec)
  have n2: "length [0::nat, 1] = 2" by simp
  show ?thesis
    unfolding switch_calls_cycle [OF wf ne, of 6] r n2 six a by simp
qed

theorem SwitchProcess_round_robin_witness:
  "current two_process_sched < length (process two_process_sched)
   \<and> SwitchProcess two_process_sched
       = (Some \<lparr>proc_id = 1, status = kReady\<rparr>, two_process_sched\<lparr>current := 1\<rparr>)
   \<and> runnable \<lparr>proc_id = 1, status = kReady\<rparr>
   \<and> current skipping_sched < length (process skipping_sched)
   \<and> SwitchProcess skipping_sched
       = (Some \<lparr>proc_id = 2, status = kReady\<rparr>, skipping_sched\<lparr>current := 2\<rparr>)
   \<and> \<not> runnable (process skipping_sched ! 1)
   \<and> current idle_sched < length (process idle_sched)
   \<and> SwitchProcess idle_sched = (None, idle_sched)
   \<and> runnable_slots idle_sched = []
   \<and> runnable_slots two_process_sched = [0, 1]
   \<and> length (process two_process_sched) = 2
   \<and> runnable (process two_process_sched ! 0) \<and> runnable (process two_process_sched ! 1)
   \<and> switch_calls 6 two_process_sched = [Some 1, Some 0, Some 1, Some 0, Some 1, Some 0]
   \<and> 1 \<in> set (runnable_slots two_process_sched)
   \<and> count_list (switch_calls (length (runnable_slots two_process_sched) * 3) two_process_sched)
        (Some 1) = 3"
proof -
  note s = two_process_sched_eq
  have wf: "current two_process_sched < length (process two_process_sched)" by (simp add: s)
  have wf3: "current skipping_sched < length (process skipping_sched)"
    by (simp add: skipping_sched_def)
  have wf1: "current idle_sched < length (process idle_sched)" by (simp add: idle_sched_def)
  have r: "runnable_slots two_process_sched = [0, 1]"
    by (rule two_slots) (simp_all add: s runnable_def)
  have sw: "SwitchProcess two_process_sched
              = (Some \<lparr>proc_id = 1, status = kReady\<rparr>, two_process_sched\<lparr>current := 1\<rparr>)"
    by (simp add: s SwitchProcess_def round_robin_order_def current_plus_def runnable_def upt_rec)
  have sw3: "SwitchProcess skipping_sched
              = (Some \<lparr>proc_id = 2, status = kReady\<rparr>, skipping_sched\<lparr>current := 2\<rparr>)"
    by (simp add: skipping_sched_def SwitchProcess_def round_robin_order_def current_plus_def
          runnable_def upt_rec)
  have sw1: "SwitchProcess idle_sched = (None, idle_sched)"
    by (simp add: idle_sched_def SwitchProcess_def round_robin_order_def current_plus_def
          runnable_def upt_rec)
  have two: "length (process two_process_sched) = 2"
    "runnable (process two_process_sched ! 0)" "runnable (process two_process_sched ! 1)"
    by (simp_all add: s runnable_def)
  have mem: "1 \<in> set (runnable_slots two_process_sched)" by (simp add: r)
  have skipped: "\<not> runnable (process skipping_sched ! 1)"
    by (simp add: skipping_sched_def runnable_def)
  note T2 = SwitchProcess_round_robin [OF wf, where proc = "\<lparr>proc_id = 1, status = kReady\<rparr>"
            and sched' = "two_process_sched\<lparr>current := 1\<rparr>" and j = 1 and n = 3 and k = 6]
  note T3 = SwitchProcess_round_robin [OF wf3, where proc = "\<lparr>proc_id = 2, status = kReady\<rparr>"
            and sched' = "skipping_sched\<lparr>current := 2\<rparr>"]
  note T1 = SwitchProcess_round_robin [OF wf1, where sched' = idle_sched]
  have run1: "runnable \<lparr>proc_id = 1, status = kReady\<rparr>"
    using T2 [THEN conjunct2, THEN conjunct1, THEN mp, OF sw] by (rule conjunct1)
  have "switch_calls 6 two_process_sched
      = map Some [1 - current two_process_sched, current two_process_sched,
                  1 - current two_process_sched, current two_process_sched,
                  1 - current two_process_sched, current two_process_sched]"
    using T2 [THEN conjunct2, THEN conjunct2, THEN conjunct2, THEN conjunct1] two by (simp only:)
  then have six: "switch_calls 6 two_process_sched = [Some 1, Some 0, Some 1, Some 0, Some 1, Some 0]"
    by (simp add: s)
  have cnt: "count_list
      (switch_calls (length (runnable_slots two_process_sched) * 3) two_process_sched) (Some 1) = 3"
    using T2 [THEN conjunct2, THEN conjunct2, THEN conjunct2, THEN conjunct2, THEN mp, OF mem] .
  have run2: "runnable \<lparr>proc_id = 2, status = kReady\<rparr>"
    using T3 [THEN conjunct2, THEN conjunct1, THEN mp, OF sw3] by (rule conjunct1)
  have idle: "runnable_slots idle_sched = []"
    using T1 [THEN conjunct1, THEN mp, OF sw1] by (rule conjunct2)
  show ?thesis
    by (intro conjI wf wf3 wf1 sw sw3 sw1 run1 skipped idle r two six mem cnt)
qed

text \<open>
  The claim C8 as stated has six calls on two registered processes A and B select
  A, B, A, B, A, B. The constructor of scheduler.h registers the root process first and
  makes it the current one, so with A the root (slot 0) and B registered after it
  (slot 1) the first call selects B: the sequence is B, A, B, A, B, A.
\<close>

theorem SwitchProcess_two_process_counterexample:
  "map proc_id (process two_process_sched) = [0, 1]
   \<and> current two_process_sched = 0
   \<and> switch_calls 6 two_process_sched = [Some 1, Some 0, Some 1, Some 0, Some 1, Some 0]
   \<and> switch_calls 6 two_process_sched \<noteq> [Some 0, Some 1, Some 0, Some 1, Some 0, Some 1]"
  by (simp add: two_process_calls) (simp add: two_process_sched_eq)

subsection \<open>SegmentMapping::Map\<close>

text \<open>
  C7. For a segment with \<open>paddr \<noteq> 0\<close>, \<open>Map\<close> leaves a page table that translates
  every address \<open>a\<close> of \<open>[vaddr, vaddr+map_size)\<close> to \<open>paddr + (a - vaddr)\<close> with
  the given attribute bits plus \<open>Present\<close>, and translates every other address as
  before; for a null segment (\<open>paddr = 0\<close>) it returns the page table unchanged.
\<close>

theorem Map_installs:
  "(paddr this \<noteq> 0 \<longrightarrow>
      (\<forall>a. a - vaddr this < map_size this \<longrightarrow>
            translation (Map allocator page_root page_attr should_clflush this) a
              = Some (paddr this + (a - vaddr this), kPageAttrPresent OR page_attr))
      \<and> (\<forall>a. \<not> a - vaddr this < map_size this \<longrightarrow>
            translation (Map allocator page_root page_attr should_clflush this) a
              = translation page_root a))
   \<and> (paddr this = 0 \<longrightarrow> Map allocator page_root page_attr should_clflush this = page_root)
   \<and> bit (kPageAttrPresent OR page_attr) 0
   \<and> (\<forall>n. bit page_attr n \<longrightarrow> bit (kPageAttrPresent OR page_attr) n)"
  by (simp add: Map_def CreatePageMapping_def GetPhysAddr_def GetVirtAddr_def GetMapSize_def
        kPageAttrPresent_def Let_def bit_or_iff)

theorem Map_installs_witness:
  "paddr \<lparr>vaddr = 0x400000, paddr = 0x100000, map_size = 0x2000\<rparr> \<noteq> 0
   \<and> (0x401234 :: u64) - 0x400000 < 0x2000
   \<and> translation (Map () empty_pml4 2 True \<lparr>vaddr = 0x400000, paddr = 0x100000, map_size = 0x2000\<rparr>) 0x401234
        = Some (0x101234, 3)
   \<and> \<not> (0x500000 :: u64) - 0x400000 < 0x2000
   \<and> translation (Map () empty_pml4 2 True \<lparr>vaddr = 0x400000, paddr = 0x100000, map_size = 0x2000\<rparr>) 0x500000
        = None
   \<and> Map () empty_pml4 2 True \<lparr>vaddr = 0x400000, paddr = 0, map_size = 0x2000\<rparr> = empty_pml4
   \<and> bit (2 :: u64) 1 \<and> bit (kPageAttrPresent OR (2 :: u64)) 1"
  using Map_installs [of "\<lparr>vaddr = 0x400000, paddr = 0x100000, map_size = 0x2000\<rparr>" "()" empty_pml4 2 True]
        Map_installs [of "\<lparr>vaddr = 0x400000, paddr = 0, map_size = 0x2000\<rparr>" "()" empty_pml4 2 True]
  by (simp add: empty_pml4_def kPageAttrPresent_def)

subsection \<open>Flushing and copying segments\<close>

lemma unat_u64_bound: "unat (x :: u64) < 18446744073709551616"
  using unsigned_less [of x, where 'a = nat] by simp

lemma unat_sub_u64:
  "unat (x - y :: u64) =
     (if unat y \<le> unat x then unat x - unat y else unat x + 18446744073709551616 - unat y)"
  using unat_sub_if_size [of x y] by (simp add: word_size)

lemma in_range_plain:
  "unat p + unat n \<le> 2 ^ 64 \<Longrightarrow> in_range p n a \<longleftrightarrow> unat p \<le> unat a \<and> unat a < unat p + unat n"
  using unat_u64_bound [of a] unat_u64_bound [of p]
  by (auto simp: in_range_def word_less_nat_alt unat_sub_u64 split: if_splits)

lemma ranges_disjointD:
  assumes d: "ranges_disjoint p1 n1 p2 n2" and a: "in_range p1 n1 a"
  shows "\<not> in_range p2 n2 a"
proof
  assume b: "in_range p2 n2 a"
  have n1: "n1 \<noteq> 0" using a by (auto simp: in_range_def)
  have n2: "n2 \<noteq> 0" using b by (auto simp: in_range_def)
  from d n1 n2 have le: "unat n1 \<le> unat (p2 - p1)" "unat n2 \<le> unat (p1 - p2)"
    by (simp_all add: ranges_disjoint_def word_le_nat_alt)
  from a b have lt: "unat (a - p1) < unat n1" "unat (a - p2) < unat n2"
    by (simp_all add: in_range_def word_less_nat_alt)
  show False
    using le lt unat_u64_bound [of a] unat_u64_bound [of p1] unat_u64_bound [of p2]
    by (simp add: unat_sub_u64 split: if_splits)
qed

lemma word_range_step:
  assumes "Suc n < 2 ^ 64"
  shows "(x :: u64) < of_nat (Suc n) \<longleftrightarrow> x = 0 \<or> x - 1 < of_nat n"
proof -
  have s: "unat (of_nat (Suc n) :: u64) = Suc n"
    using assms by (simp only: unat_of_nat) simp
  have m: "unat (of_nat n :: u64) = n"
    using assms by (simp only: unat_of_nat) simp
  show ?thesis
  proof (cases "x = 0")
    case True
    then show ?thesis by (simp only: word_less_nat_alt s) simp
  next
    case False
    then have "0 < unat x" by (simp add: unat_gt_0)
    then show ?thesis
      using False by (simp only: word_less_nat_alt s m unat_minus_one [OF False]) auto
  qed
qed

lemma flush_bytes_bytes: "bytes (flush_bytes n p m) = bytes m"
  by (induction n arbitrary: p m) (simp_all add: CLFlush_def)

lemma flush_bytes_persisted:
  "n < 2 ^ 64 \<Longrightarrow>
   persisted (flush_bytes n p m) a = (if a - p < of_nat n then bytes m a else persisted m a)"
proof (induction n arbitrary: p m)
  case 0
  then show ?case by simp
next
  case (Suc n)
  have n: "n < 2 ^ 64" using Suc.prems by simp
  have sub: "a - (p + 1) = a - p - 1" by simp
  have eq0: "a - p = 0 \<longleftrightarrow> a = p" by simp
  show ?case
    by (simp only: flush_bytes.simps Suc.IH [OF n] word_range_step [OF Suc.prems] sub eq0)
       (simp add: CLFlush_def)
qed

lemma minus_one_not_less:
  assumes "Suc n < 2 ^ 64"
  shows "\<not> (0 - 1 :: u64) < of_nat n"
proof -
  have m: "unat (of_nat n :: u64) = n"
    using assms by (simp only: unat_of_nat) simp
  have "unat (0 - 1 :: u64) = 18446744073709551615"
    by (simp only: unat_sub_u64 [of 0 1]) simp
  then show ?thesis using assms by (simp only: word_less_nat_alt m) simp
qed

lemma copy_bytes_outside:
  "n < 2 ^ 64 \<Longrightarrow> \<not> a - d < of_nat n \<Longrightarrow>
   bytes (copy_bytes n d s m) a = bytes m a \<and> persisted (copy_bytes n d s m) a = persisted m a"
proof (induction n arbitrary: d s m)
  case 0
  then show ?case by simp
next
  case (Suc n)
  have n: "n < 2 ^ 64" using Suc.prems by simp
  have sub: "a - (d + 1) = a - d - 1" by simp
  from Suc.prems(2) [unfolded word_range_step [OF Suc.prems(1)]]
  have out: "a - d \<noteq> 0" "\<not> a - d - 1 < of_nat n"
    by blast+
  then have "a \<noteq> d" by simp
  moreover have "\<not> a - (d + 1) < of_nat n" unfolding sub by (rule out(2))
  ultimately show ?case
    using Suc.IH [OF n, of "d + 1" "s + 1" "CLFlush d (store_byte d (bytes m s) m)"]
    by (simp add: CLFlush_def store_byte_def)
qed

lemma copy_bytes_inside:
  "n < 2 ^ 64 \<Longrightarrow> (\<forall>x. x - d < of_nat n \<longrightarrow> \<not> x - s < of_nat n) \<Longrightarrow> a - d < of_nat n \<Longrightarrow>
   bytes (copy_bytes n d s m) a = bytes m (s + (a - d)) \<and>
   persisted (copy_bytes n d s m) a = bytes m (s + (a - d))"
proof (induction n arbitrary: d s m)
  case 0
  then show ?case by simp
next
  case (Suc n)
  let ?m1 = "CLFlush d (store_byte d (bytes m s) m)"
  have n: "n < 2 ^ 64" using Suc.prems by simp
  have sub: "x - (y + 1) = x - y - 1" for x y :: u64 by simp
  have dis: "\<forall>x. x - (d + 1) < of_nat n \<longrightarrow> \<not> x - (s + 1) < of_nat n"
  proof (intro allI impI)
    fix x assume "x - (d + 1) < of_nat n"
    then have "x - d < of_nat (Suc n)"
      by (simp only: sub word_range_step [OF Suc.prems(1)]) simp
    then have "\<not> x - s < of_nat (Suc n)" using Suc.prems(2) by blast
    then show "\<not> x - (s + 1) < of_nat n"
      by (simp only: sub word_range_step [OF Suc.prems(1)]) simp
  qed
  have "d - d < (of_nat (Suc n) :: u64)"
    by (simp only: word_range_step [OF Suc.prems(1)]) simp
  then have ds: "\<not> d - s < of_nat (Suc n)" using Suc.prems(2) by blast
  show ?case
  proof (cases "a = d")
    case True
    have "\<not> a - (d + 1) < of_nat n"
      using minus_one_not_less [OF Suc.prems(1)] True by (simp only: sub) simp
    then show ?thesis
      using copy_bytes_outside [OF n, of a "d + 1" "s + 1" ?m1] True
      by (simp add: CLFlush_def store_byte_def)
  next
    case False
    then have "a - d \<noteq> 0" by simp
    then have in': "a - (d + 1) < of_nat n"
      using Suc.prems(3) by (simp only: sub word_range_step [OF Suc.prems(1)]) simp
    have "s + (a - d) \<noteq> d"
    proof
      assume "s + (a - d) = d"
      then have "d - s = a - d" by (metis add_diff_cancel_left')
      then show False using ds Suc.prems(3) by metis
    qed
    then have src: "bytes ?m1 (s + (a - d)) = bytes m (s + (a - d))"
      by (simp add: CLFlush_def store_byte_def)
    have idx: "s + 1 + (a - (d + 1)) = s + (a - d)" by simp
    show ?thesis
      using Suc.IH [OF n dis in', of ?m1] by (simp only: copy_bytes.simps idx src) 
  qed
qed

lemma flush_segment_persisted:
  "persisted (flush_bytes (unat sz) p m) a = (if in_range p sz a then bytes m a else persisted m a)"
  using flush_bytes_persisted [of "unat sz" p m a] unat_u64_bound [of sz]
  by (simp add: in_range_def)

lemma SegmentMapping_Flush_mem:
  "bytes (snd (SegmentMapping_Flush pml4 seg st)) = bytes (snd st) \<and>
   persisted (snd (SegmentMapping_Flush pml4 seg st)) a
     = (if in_segment seg a then bytes (snd st) a else persisted (snd st) a)"
  by (cases st) (simp add: SegmentMapping_Flush_def flush_bytes_bytes flush_segment_persisted in_segment_def)

lemma ProcessMappingInfo_Flush_mem:
  "bytes (snd (ProcessMappingInfo_Flush pml4 mi st)) = bytes (snd st) \<and>
   persisted (snd (ProcessMappingInfo_Flush pml4 mi st)) a
     = (if in_segment (code mi) a \<or> in_segment (data mi) a \<or> in_segment (heap mi) a
        then bytes (snd st) a else persisted (snd st) a)"
  by (simp add: ProcessMappingInfo_Flush_def SegmentMapping_Flush_mem)

lemma ExecutionContext_Flush_mem:
  "bytes (snd (ExecutionContext_Flush pml4 this st)) = bytes (snd st) \<and>
   persisted (snd (ExecutionContext_Flush pml4 this st)) a
     = (if in_segment (code (map_info this)) a \<or> in_segment (data (map_info this)) a
           \<or> in_segment (heap (map_info this)) a
        then bytes (snd st) a else persisted (snd st) a)"
  by (simp add: ExecutionContext_Flush_def ProcessMappingInfo_Flush_mem)

lemma copy_segment_outside:
  "\<not> in_range d sz a \<Longrightarrow>
   bytes (copy_bytes (unat sz) d s m) a = bytes m a \<and>
   persisted (copy_bytes (unat sz) d s m) a = persisted m a"
  using copy_bytes_outside [of "unat sz" a d s m] unat_u64_bound [of sz]
  by (simp add: in_range_def)

lemma copy_segment_inside:
  assumes "\<forall>x. in_range d sz x \<longrightarrow> \<not> in_range s sz x" and "off < sz"
  shows "bytes (copy_bytes (unat sz) d s m) (d + off) = bytes m (s + off) \<and>
         persisted (copy_bytes (unat sz) d s m) (d + off) = bytes m (s + off)"
  using copy_bytes_inside [of "unat sz" d s "d + off" m] unat_u64_bound [of sz] assms
  by (simp add: in_range_def)

lemma in_range_mono: "in_range p n a \<Longrightarrow> n \<le> n' \<Longrightarrow> in_range p n' a"
  by (auto simp: in_range_def)

lemma in_range_offset: "off < n \<Longrightarrow> in_range p n (p + off)"
  by (simp add: in_range_def)

lemma prefix_disjoint:
  assumes "ranges_disjoint d dn s sn" and "sn \<le> dn"
  shows "\<forall>x. in_range d sn x \<longrightarrow> \<not> in_range s sn x"
  using assms ranges_disjointD in_range_mono by blast

lemma ranges_disjoint_sym: "ranges_disjoint p1 n1 p2 n2 \<Longrightarrow> ranges_disjoint p2 n2 p1 n1"
  by (auto simp: ranges_disjoint_def)

lemma CopyDataFrom_mem:
  assumes "CopyDataFrom_pre this from"
  shows "CopyDataFrom this from (stat, m) =
           Inr (stat + map_size from,
                copy_bytes (unat (map_size from)) (paddr this) (paddr from) m)"
  using assms by (simp add: CopyDataFrom_def)

lemma CopyContextFrom_returns:
  assumes "CopyContextFrom_pre this from"
  shows "CopyContextFrom this from (stat, m) =
           Inr (this\<lparr>cpu_context := (cpu_context from)\<lparr>cr3 := cr3 (cpu_context this)\<rparr>\<rparr>,
                stat + map_size (data (map_info from)) + map_size (stack (map_info from)),
                CopyContextFrom_mem this from m)"
  using assms
  by (simp add: CopyContextFrom_def CopyContextFrom_pre_def CopyDataFrom_def Let_def
        CopyContextFrom_mem_def)

lemma CopyContextFrom_mem_frame:
  assumes pre: "CopyContextFrom_pre this from"
      and out: "\<not> in_segment (data (map_info this)) a" "\<not> in_segment (stack (map_info this)) a"
  shows "bytes (CopyContextFrom_mem this from m) a = bytes m a \<and>
         persisted (CopyContextFrom_mem this from m) a = persisted m a"
proof -
  have "\<not> in_range (paddr (data (map_info this))) (map_size (data (map_info from))) a"
    using pre out(1) in_range_mono by (auto simp: CopyContextFrom_pre_def CopyDataFrom_pre_def in_segment_def)
  moreover have "\<not> in_range (paddr (stack (map_info this))) (map_size (stack (map_info from))) a"
    using pre out(2) in_range_mono by (auto simp: CopyContextFrom_pre_def CopyDataFrom_pre_def in_segment_def)
  ultimately show ?thesis
    by (simp add: CopyContextFrom_mem_def copy_segment_outside)
qed

lemma CopyContextFrom_mem_data:
  assumes pre: "CopyContextFrom_pre this from"
      and md: "mapping_disjoint (map_info this)"
      and mm: "mappings_disjoint (map_info this) (map_info from)"
      and off: "off < map_size (data (map_info from))"
  shows "bytes (CopyContextFrom_mem this from m) (paddr (data (map_info this)) + off)
           = bytes m (paddr (data (map_info from)) + off)"
proof -
  let ?dt = "data (map_info this)" and ?df = "data (map_info from)"
  let ?st = "stack (map_info this)" and ?sf = "stack (map_info from)"
  let ?a = "paddr ?dt + off"
  have le: "map_size ?df \<le> map_size ?dt" "map_size ?sf \<le> map_size ?st"
    using pre by (simp_all add: CopyContextFrom_pre_def CopyDataFrom_pre_def)
  have dd: "ranges_disjoint (paddr ?dt) (map_size ?dt) (paddr ?df) (map_size ?df)"
    using mm by (simp add: mappings_disjoint_def segment_apart_def segments_disjoint_def)
  have ds: "ranges_disjoint (paddr ?dt) (map_size ?dt) (paddr ?st) (map_size ?st)"
    using md by (simp add: mapping_disjoint_def segments_disjoint_def)
  have "in_range (paddr ?dt) (map_size ?dt) ?a"
    using off le(1) in_range_offset in_range_mono by blast
  then have "\<not> in_range (paddr ?st) (map_size ?st) ?a"
    using ds ranges_disjointD by blast
  then have out: "\<not> in_range (paddr ?st) (map_size ?sf) ?a"
    using le(2) in_range_mono by blast
  show ?thesis
    unfolding CopyContextFrom_mem_def
    using copy_segment_outside [OF out] copy_segment_inside [OF prefix_disjoint [OF dd le(1)] off]
    by simp
qed

lemma CopyContextFrom_mem_stack:
  assumes pre: "CopyContextFrom_pre this from"
      and mm: "mappings_disjoint (map_info this) (map_info from)"
      and off: "off < map_size (stack (map_info from))"
  shows "bytes (CopyContextFrom_mem this from m) (paddr (stack (map_info this)) + off)
           = bytes m (paddr (stack (map_info from)) + off)"
proof -
  let ?dt = "data (map_info this)" and ?df = "data (map_info from)"
  let ?st = "stack (map_info this)" and ?sf = "stack (map_info from)"
  let ?b = "paddr ?sf + off"
  have le: "map_size ?df \<le> map_size ?dt" "map_size ?sf \<le> map_size ?st"
    using pre by (simp_all add: CopyContextFrom_pre_def CopyDataFrom_pre_def)
  have ss: "ranges_disjoint (paddr ?st) (map_size ?st) (paddr ?sf) (map_size ?sf)"
    using mm by (simp add: mappings_disjoint_def segment_apart_def segments_disjoint_def)
  have dsf: "ranges_disjoint (paddr ?dt) (map_size ?dt) (paddr ?sf) (map_size ?sf)"
    using mm by (simp add: mappings_disjoint_def segment_apart_def segments_disjoint_def)
  have "in_range (paddr ?sf) (map_size ?sf) ?b" using off by (rule in_range_offset)
  then have "\<not> in_range (paddr ?dt) (map_size ?dt) ?b"
    using ranges_disjoint_sym [OF dsf] ranges_disjointD by blast
  then have out: "\<not> in_range (paddr ?dt) (map_size ?df) ?b"
    using le(1) in_range_mono by blast
  show ?thesis
    unfolding CopyContextFrom_mem_def
    using copy_segment_outside [OF out] copy_segment_inside [OF prefix_disjoint [OF ss le(2)] off]
    by simp
qed

lemma slot_ctx_wf:
  "mapping_disjoint (map_info ctx_A)" "mapping_disjoint (map_info ctx_B)"
  "mappings_disjoint (map_info ctx_A) (map_info ctx_B)"
  "mappings_disjoint (map_info ctx_B) (map_info ctx_A)"
  "CopyContextFrom_pre ctx_A ctx_B" "CopyContextFrom_pre ctx_B ctx_A"
  by (simp_all add: ctx_A_def ctx_B_def slot_ctx_def mapping_disjoint_def mappings_disjoint_def
        segment_apart_def segments_disjoint_def ranges_disjoint_def CopyContextFrom_pre_def
        CopyDataFrom_pre_def)

text \<open>
  C2, on the code. \<open>ProcessMappingInfo::Flush\<close> flushes \<open>code\<close>, \<open>data\<close> and
  \<open>heap\<close> and not \<open>stack\<close>. Flushing the context \<open>ctx_A\<close> in \<open>fresh_mem\<close>, where
  no byte is durable yet: the byte at \<open>0x102abc\<close> lies in the stack segment and holds
  \<open>0xbc\<close>, and after the flush persistent memory still holds 0 there, whereas the byte
  at \<open>0x101abc\<close> of the data segment has become durable.
\<close>

theorem ExecutionContext_Flush_skips_stack:
  "in_segment (stack (map_info ctx_A)) 0x102abc
   \<and> bytes (snd (ExecutionContext_Flush page_root ctx_A (0, fresh_mem))) 0x102abc = 0xbc
   \<and> persisted (snd (ExecutionContext_Flush page_root ctx_A (0, fresh_mem))) 0x102abc = 0
   \<and> in_segment (data (map_info ctx_A)) 0x101abc
   \<and> persisted (snd (ExecutionContext_Flush page_root ctx_A (0, fresh_mem))) 0x101abc = 0xbc"
  by (simp add: ExecutionContext_Flush_mem)
     (simp add: ctx_A_def slot_ctx_def fresh_mem_def in_segment_def in_range_def)

lemma mapping_disjoint_code_heap:
  assumes md: "mapping_disjoint mi" and a: "in_segment (code mi) a \<or> in_segment (heap mi) a"
  shows "\<not> in_segment (data mi) a \<and> \<not> in_segment (stack mi) a"
proof -
  have d: "ranges_disjoint (paddr (code mi)) (map_size (code mi)) (paddr (data mi)) (map_size (data mi))"
    "ranges_disjoint (paddr (code mi)) (map_size (code mi)) (paddr (stack mi)) (map_size (stack mi))"
    "ranges_disjoint (paddr (heap mi)) (map_size (heap mi)) (paddr (data mi)) (map_size (data mi))"
    "ranges_disjoint (paddr (heap mi)) (map_size (heap mi)) (paddr (stack mi)) (map_size (stack mi))"
    using md ranges_disjoint_sym by (auto simp: mapping_disjoint_def segments_disjoint_def)
  show ?thesis
    using a d ranges_disjointD unfolding in_segment_def by blast
qed

text \<open>
  C3. When the preconditions of the two segment copies hold and the segments involved
  occupy disjoint physical ranges, \<open>CopyContextFrom\<close> succeeds and leaves in \<open>this\<close>
  the CPU context of \<open>from\<close> with the \<open>cr3\<close> that \<open>this\<close> had before; the bytes of
  the data and of the stack segment of \<open>from\<close> are then found in the data and the stack
  segment of \<open>this\<close>; and every byte of the code and of the heap segment of \<open>this\<close>
  is what it was.
\<close>

theorem CopyContextFrom_copies:
  assumes pre: "CopyContextFrom_pre this from"
      and md: "mapping_disjoint (map_info this)"
      and mm: "mappings_disjoint (map_info this) (map_info from)"
  shows "case CopyContextFrom this from (stat, m) of
           Inl e \<Rightarrow> False
         | Inr (this', stat', m') \<Rightarrow>
             cpu_context this' = (cpu_context from)\<lparr>cr3 := cr3 (cpu_context this)\<rparr>
           \<and> cr3 (cpu_context this') = cr3 (cpu_context this)
           \<and> greg (cpu_context this') = greg (cpu_context from)
           \<and> fpu_context (cpu_context this') = fpu_context (cpu_context from)
           \<and> int_ctx (cpu_context this') = int_ctx (cpu_context from)
           \<and> map_info this' = map_info this
           \<and> (off < map_size (data (map_info from)) \<longrightarrow>
                bytes m' (paddr (data (map_info this)) + off)
                  = bytes m (paddr (data (map_info from)) + off))
           \<and> (off < map_size (stack (map_info from)) \<longrightarrow>
                bytes m' (paddr (stack (map_info this)) + off)
                  = bytes m (paddr (stack (map_info from)) + off))
           \<and> (in_segment (code (map_info this)) a \<or> in_segment (heap (map_info this)) a \<longrightarrow>
                bytes m' a = bytes m a)"
  using CopyContextFrom_mem_data [OF pre md mm, of off m]
        CopyContextFrom_mem_stack [OF pre mm, of off m]
        CopyContextFrom_mem_frame [OF pre, of a m]
        mapping_disjoint_code_heap [OF md, of a]
  by (auto simp: CopyContextFrom_returns [OF pre])

theorem CopyContextFrom_copies_witness:
  "CopyContextFrom_pre ctx_B ctx_A \<and> mapping_disjoint (map_info ctx_B)
   \<and> mappings_disjoint (map_info ctx_B) (map_info ctx_A)
   \<and> (0x123 :: u64) < map_size (data (map_info ctx_A))
   \<and> (0x123 :: u64) < map_size (stack (map_info ctx_A))
   \<and> in_segment (code (map_info ctx_B)) 0x200456
   \<and> (case CopyContextFrom ctx_B ctx_A (0, fresh_mem) of
         Inl e \<Rightarrow> False
       | Inr (this', stat', m') \<Rightarrow>
           cr3 (cpu_context this') = 0x208000
         \<and> rip (int_ctx (cpu_context this')) = 0x400010
         \<and> greg (cpu_context this') = [0x10, 0x11]
         \<and> bytes m' 0x201123 = 0x23 \<and> bytes fresh_mem 0x101123 = 0x23
         \<and> bytes m' 0x202123 = 0x23
         \<and> bytes m' 0x200456 = 0x56)"
proof -
  note pre = slot_ctx_wf(6) and md = slot_ctx_wf(2) and mm = slot_ctx_wf(4)
  have c: "in_segment (code (map_info ctx_B)) 0x200456"
    by (simp add: ctx_B_def slot_ctx_def in_segment_def in_range_def)
  show ?thesis
    using CopyContextFrom_copies [OF pre md mm, where off = "0x123" and stat = 0 and m = fresh_mem
            and a = "0x200456"] c pre md mm
    by (simp add: CopyContextFrom_returns [OF pre])
       (simp add: ctx_A_def ctx_B_def slot_ctx_def fresh_mem_def)
qed

text \<open>
  C4. Round trip. Copying the context \<open>a\<close> into \<open>b\<close> and then \<open>b\<close> into a context
  \<open>c\<close> (which may be \<open>a\<close> itself), under the preconditions of the copies and with
  the segments in disjoint physical ranges, gives a context whose CPU registers are those
  of \<open>a\<close>, except for \<open>cr3\<close>, which is the one the destination had, and whose data and
  stack segments hold, byte for byte, what the data and stack segments of \<open>a\<close> held.
\<close>

theorem CopyContextFrom_round_trip:
  assumes ab: "CopyContextFrom_pre b a" and bc: "CopyContextFrom_pre c b"
      and mdb: "mapping_disjoint (map_info b)" and mdc: "mapping_disjoint (map_info c)"
      and mba: "mappings_disjoint (map_info b) (map_info a)"
      and mcb: "mappings_disjoint (map_info c) (map_info b)"
  shows "case CopyContextFrom b a (stat, m) of
           Inl e \<Rightarrow> False
         | Inr (b', stat1, m1) \<Rightarrow>
             (case CopyContextFrom c b' (stat1, m1) of
                Inl e \<Rightarrow> False
              | Inr (a', stat2, m2) \<Rightarrow>
                  cpu_context a' = (cpu_context a)\<lparr>cr3 := cr3 (cpu_context c)\<rparr>
                \<and> greg (cpu_context a') = greg (cpu_context a)
                \<and> fpu_context (cpu_context a') = fpu_context (cpu_context a)
                \<and> int_ctx (cpu_context a') = int_ctx (cpu_context a)
                \<and> (off < map_size (data (map_info a)) \<longrightarrow>
                     bytes m2 (paddr (data (map_info c)) + off)
                       = bytes m (paddr (data (map_info a)) + off))
                \<and> (off < map_size (stack (map_info a)) \<longrightarrow>
                     bytes m2 (paddr (stack (map_info c)) + off)
                       = bytes m (paddr (stack (map_info a)) + off)))"
proof -
  let ?b' = "b\<lparr>cpu_context := (cpu_context a)\<lparr>cr3 := cr3 (cpu_context b)\<rparr>\<rparr>"
  let ?m1 = "CopyContextFrom_mem b a m"
  have bc': "CopyContextFrom_pre c ?b'" using bc by (simp add: CopyContextFrom_pre_def)
  have mcb': "mappings_disjoint (map_info c) (map_info ?b')" using mcb by simp
  have le: "map_size (data (map_info a)) \<le> map_size (data (map_info b))"
           "map_size (stack (map_info a)) \<le> map_size (stack (map_info b))"
    using ab by (simp_all add: CopyContextFrom_pre_def CopyDataFrom_pre_def)
  have d: "bytes (CopyContextFrom_mem c ?b' ?m1) (paddr (data (map_info c)) + off)
             = bytes m (paddr (data (map_info a)) + off)"
    if "off < map_size (data (map_info a))"
  proof -
    have "off < map_size (data (map_info ?b'))" using that le(1) by simp
    from CopyContextFrom_mem_data [OF bc' mdc mcb' this, of ?m1]
    show ?thesis using CopyContextFrom_mem_data [OF ab mdb mba that, of m] by simp
  qed
  have s: "bytes (CopyContextFrom_mem c ?b' ?m1) (paddr (stack (map_info c)) + off)
             = bytes m (paddr (stack (map_info a)) + off)"
    if "off < map_size (stack (map_info a))"
  proof -
    have "off < map_size (stack (map_info ?b'))" using that le(2) by simp
    from CopyContextFrom_mem_stack [OF bc' mcb' this, of ?m1]
    show ?thesis using CopyContextFrom_mem_stack [OF ab mba that, of m] by simp
  qed
  show ?thesis
    using d s by (simp add: CopyContextFrom_returns [OF ab] CopyContextFrom_returns [OF bc'])
qed

theorem CopyContextFrom_round_trip_witness:
  "CopyContextFrom_pre ctx_B ctx_A \<and> CopyContextFrom_pre ctx_A ctx_B
   \<and> mapping_disjoint (map_info ctx_B) \<and> mapping_disjoint (map_info ctx_A)
   \<and> mappings_disjoint (map_info ctx_B) (map_info ctx_A)
   \<and> mappings_disjoint (map_info ctx_A) (map_info ctx_B)
   \<and> (0x123 :: u64) < map_size (data (map_info ctx_A))
   \<and> (0x123 :: u64) < map_size (stack (map_info ctx_A))
   \<and> (case CopyContextFrom ctx_B ctx_A (0, fresh_mem) of
         Inl e \<Rightarrow> False
       | Inr (b', stat1, m1) \<Rightarrow>
           (case CopyContextFrom ctx_A b' (stat1, m1) of
              Inl e \<Rightarrow> False
            | Inr (a', stat2, m2) \<Rightarrow>
                a' = ctx_A
              \<and> bytes m2 0x101123 = bytes fresh_mem 0x101123
              \<and> bytes m2 0x102123 = bytes fresh_mem 0x102123))"
proof -
  note ab = slot_ctx_wf(6) and ba = slot_ctx_wf(5)
  have bc': "CopyContextFrom_pre ctx_A
               (ctx_B\<lparr>cpu_context := (cpu_context ctx_A)\<lparr>cr3 := cr3 (cpu_context ctx_B)\<rparr>\<rparr>)"
    using ba by (simp add: CopyContextFrom_pre_def)
  show ?thesis
    using CopyContextFrom_round_trip [OF ab ba slot_ctx_wf(2) slot_ctx_wf(1) slot_ctx_wf(4)
            slot_ctx_wf(3), where off = "0x123" and stat = 0 and m = fresh_mem]
          slot_ctx_wf
    by (simp add: CopyContextFrom_returns [OF ab] CopyContextFrom_returns [OF bc'])
       (simp add: ctx_A_def ctx_B_def slot_ctx_def)
qed

subsection \<open>The checkpoint\<close>

lemma run_Nil [simp]: "run [] s = s"
  by (simp add: run_def)

lemma run_Cons [simp]: "run (st # steps) s = run steps (exec st s)"
  by (simp add: run_def)

lemma run_append [simp]: "run (xs @ ys) s = run ys (run xs s)"
  by (simp add: run_def)

lemma ctx_set_ctx_other: "i \<noteq> j \<Longrightarrow> (i = 0 \<or> i = 1) \<Longrightarrow> (j = 0 \<or> j = 1) \<Longrightarrow>
    ctx (set_ctx i c this) j = ctx this j"
  by (auto simp: ctx_def set_ctx_def)

lemma ctx_set_ctx_same: "ctx (set_ctx i c this) i = c"
  by (auto simp: ctx_def set_ctx_def)

lemma set_ctx_fields:
  "valid_ctx_idx (set_ctx i c this) = valid_ctx_idx this"
  "signature (set_ctx i c this) = signature this"
  by (auto simp: set_ctx_def)

lemma before_commit_inv:
  assumes "list_all (flushes_within R w) steps" and "v \<noteq> w" and "v = 0 \<or> v = 1" and "w = 0 \<or> w = 1"
  shows "valid_ctx_idx (info_persisted (run steps s)) = valid_ctx_idx (info_persisted s)
       \<and> signature (info_persisted (run steps s)) = signature (info_persisted s)
       \<and> ctx (info_persisted (run steps s)) v = ctx (info_persisted s) v
       \<and> (\<not> R a \<longrightarrow> persisted (ram (run steps s)) a = persisted (ram s) a)"
  using assms(1)
proof (induction steps arbitrary: s)
  case Nil
  then show ?case by simp
next
  case (Cons st steps)
  then have st: "flushes_within R w st" and rest: "list_all (flushes_within R w) steps"
    by simp_all
  have one: "valid_ctx_idx (info_persisted (exec st s)) = valid_ctx_idx (info_persisted s)
       \<and> signature (info_persisted (exec st s)) = signature (info_persisted s)
       \<and> ctx (info_persisted (exec st s)) v = ctx (info_persisted s) v
       \<and> (\<not> R a \<longrightarrow> persisted (ram (exec st s)) a = persisted (ram s) a)"
    using st assms(2-4)
    by (cases st) (auto simp: CLFlush_def set_ctx_fields ctx_set_ctx_other)
  show ?case
    using Cons.IH [OF rest, of "exec st s"] one by simp
qed

lemma after_commit_inv:
  assumes "list_all (writes_within R) steps"
  shows "info_persisted (run steps s) = info_persisted s
       \<and> (\<not> R a \<longrightarrow> persisted (ram (run steps s)) a = persisted (ram s) a)"
  using assms
proof (induction steps arbitrary: s)
  case Nil
  then show ?case by simp
next
  case (Cons st steps)
  then have st: "writes_within R st" and rest: "list_all (writes_within R) steps"
    by simp_all
  have one: "info_persisted (exec st s) = info_persisted s
       \<and> (\<not> R a \<longrightarrow> persisted (ram (exec st s)) a = persisted (ram s) a)"
    using st by (cases st) (auto simp: CLFlush_def store_byte_def)
  show ?case
    using Cons.IH [OF rest, of "exec st s"] one by simp
qed

lemma of_nat_less_unat: "i < unat (sz :: u64) \<Longrightarrow> (of_nat i :: u64) < sz"
proof -
  assume a: "i < unat sz"
  then have "i < 2 ^ 64" using unat_u64_bound [of sz] by simp
  then have "unat (of_nat i :: u64) = i" by (simp only: unat_of_nat) simp
  then show ?thesis using a by (simp add: word_less_nat_alt)
qed

lemma flush_steps_within:
  "list_all (flushes_within (in_segment seg) w) (SegmentMapping_Flush_steps seg)"
  by (auto simp: SegmentMapping_Flush_steps_def list_all_iff in_segment_def in_range_def
        of_nat_less_unat)

lemma list_all_mono: "list_all P xs \<Longrightarrow> (\<And>x. P x \<Longrightarrow> Q x) \<Longrightarrow> list_all Q xs"
  by (auto simp: list_all_iff)

lemma flushes_within_mono:
  "flushes_within R w st \<Longrightarrow> (\<And>a. R a \<Longrightarrow> R' a) \<Longrightarrow> flushes_within R' w st"
  by (cases st) auto

lemma writes_within_mono:
  "writes_within R st \<Longrightarrow> (\<And>a. R a \<Longrightarrow> R' a) \<Longrightarrow> writes_within R' st"
  by (cases st) auto

lemma context_flush_steps_within:
  "list_all (flushes_within (flushed_region (map_info (ctx this w))) w)
     (ExecutionContext_Flush_steps this w)"
proof -
  let ?mi = "map_info (ctx this w)"
  have seg: "list_all (flushes_within (flushed_region ?mi) w) (SegmentMapping_Flush_steps seg)"
    if which: "seg = code ?mi \<or> seg = data ?mi \<or> seg = heap ?mi" for seg
  proof -
    have "flushes_within (flushed_region ?mi) w st"
      if "st \<in> set (SegmentMapping_Flush_steps seg)" for st
    proof (rule flushes_within_mono)
      show "flushes_within (in_segment seg) w st"
        using flush_steps_within [of seg w] that by (simp add: list_all_iff)
      show "\<And>a. in_segment seg a \<Longrightarrow> flushed_region ?mi a"
        using which by (auto simp: flushed_region_def)
    qed
    then show ?thesis by (simp add: list_all_iff)
  qed
  show ?thesis
    by (simp add: ExecutionContext_Flush_steps_def ProcessMappingInfo_Flush_steps_def seg)
qed

lemma copy_steps_within:
  assumes "CopyDataFrom_pre this from"
  shows "list_all (writes_within (in_segment this)) (CopyDataFrom_steps this from)"
proof -
  have "in_segment this (paddr this + of_nat i)" if "i < unat (map_size from)" for i
  proof -
    have "in_range (paddr this) (map_size from) (paddr this + of_nat i)"
      using that by (simp add: in_range_def of_nat_less_unat)
    then show ?thesis
      using assms in_range_mono by (auto simp: in_segment_def CopyDataFrom_pre_def)
  qed
  then show ?thesis
    by (auto simp: CopyDataFrom_steps_def list_all_iff)
qed

lemma context_copy_steps_within:
  "list_all (writes_within (copied_region (map_info (ctx this d)))) (CopyContextFrom_steps this d f)"
proof -
  let ?mi = "map_info (ctx this d)"
  have seg: "list_all (writes_within (copied_region ?mi)) (CopyDataFrom_steps seg other)"
    if which: "seg = data ?mi \<or> seg = stack ?mi" and pre: "CopyDataFrom_pre seg other"
    for seg other
  proof -
    have "writes_within (copied_region ?mi) st"
      if "st \<in> set (CopyDataFrom_steps seg other)" for st
    proof (rule writes_within_mono)
      show "writes_within (in_segment seg) st"
        using copy_steps_within [OF pre] that by (simp add: list_all_iff)
      show "\<And>a. in_segment seg a \<Longrightarrow> copied_region ?mi a"
        using which by (auto simp: copied_region_def)
    qed
    then show ?thesis by (simp add: list_all_iff)
  qed
  show ?thesis
    by (simp add: CopyContextFrom_steps_def seg)
qed

lemma upt_Suc_shift: "[0..<Suc n] = 0 # map Suc [0..<n]"
  by (simp add: upt_conv_Cons map_Suc_upt del: upt_Suc)

lemma run_flush_bytes:
  "run (map (\<lambda>i. FlushByte (p + of_nat i)) [0..<n]) s = s\<lparr>ram := flush_bytes n p (ram s)\<rparr>"
proof (induction n arbitrary: p s)
  case 0
  then show ?case by simp
next
  case (Suc n)
  have "map (\<lambda>i. FlushByte (p + of_nat i)) [0..<Suc n]
          = FlushByte p # map (\<lambda>i. FlushByte (p + 1 + of_nat i)) [0..<n]"
    by (simp only: upt_Suc_shift) (simp add: comp_def add.assoc)
  then show ?case
    using Suc.IH [of "p + 1" "exec (FlushByte p) s"] by simp
qed

lemma run_copy_bytes:
  "run (concat (map (\<lambda>i. [StoreByte (d + of_nat i) (a + of_nat i), FlushByte (d + of_nat i)])
                    [0..<n])) s
     = s\<lparr>ram := copy_bytes n d a (ram s)\<rparr>"
proof (induction n arbitrary: d a s)
  case 0
  then show ?case by simp
next
  case (Suc n)
  have "concat (map (\<lambda>i. [StoreByte (d + of_nat i) (a + of_nat i), FlushByte (d + of_nat i)])
                    [0..<Suc n])
          = StoreByte d a # FlushByte d #
            concat (map (\<lambda>i. [StoreByte (d + 1 + of_nat i) (a + 1 + of_nat i),
                               FlushByte (d + 1 + of_nat i)]) [0..<n])"
    by (simp only: upt_Suc_shift) (simp add: comp_def add.assoc)
  then show ?case
    using Suc.IH [of "d + 1" "a + 1" "exec (FlushByte d) (exec (StoreByte d a) s)"] by simp
qed

lemma run_SegmentMapping_Flush:
  "run (SegmentMapping_Flush_steps seg) s
     = s\<lparr>ram := snd (SegmentMapping_Flush page_root seg (num, ram s))\<rparr>"
  by (simp add: SegmentMapping_Flush_steps_def SegmentMapping_Flush_def run_flush_bytes)

lemma snd_SegmentMapping_Flush:
  "snd (SegmentMapping_Flush page_root seg st) = flush_bytes (unat (map_size seg)) (paddr seg) (snd st)"
  by (cases st) (simp add: SegmentMapping_Flush_def)

lemma run_ProcessMappingInfo_Flush:
  "run (ProcessMappingInfo_Flush_steps mi) s
     = s\<lparr>ram := snd (ProcessMappingInfo_Flush page_root mi (num, ram s))\<rparr>"
  by (simp add: ProcessMappingInfo_Flush_steps_def ProcessMappingInfo_Flush_def
        SegmentMapping_Flush_steps_def run_flush_bytes snd_SegmentMapping_Flush)

lemma run_CopyDataFrom:
  "run (CopyDataFrom_steps this other) s
     = s\<lparr>ram := copy_bytes (unat (map_size other)) (paddr this) (paddr other) (ram s)\<rparr>"
  by (simp add: CopyDataFrom_steps_def run_copy_bytes)

lemma commit_state:
  "run (ExecutionContext_Flush_steps (info s) w @ SetValidContextIndex_steps w) s
     = s\<lparr>info := (info s)\<lparr>valid_ctx_idx := w\<rparr>,
         info_persisted := (set_ctx w (ctx (info s) w) (info_persisted s))\<lparr>valid_ctx_idx := w\<rparr>,
         ram := snd (ExecutionContext_Flush page_root (ctx (info s) w) (num, ram s))\<rparr>"
  by (simp add: ExecutionContext_Flush_steps_def SetValidContextIndex_steps_def
        ExecutionContext_Flush_def run_ProcessMappingInfo_Flush [where page_root = page_root and num = num])

lemma SetValidContextIndex_eq:
  "SetValidContextIndex w s
     = s\<lparr>info := (info s)\<lparr>valid_ctx_idx := w\<rparr>,
         info_persisted := (info_persisted s)\<lparr>valid_ctx_idx := w\<rparr>\<rparr>"
  by (simp add: SetValidContextIndex_def SetValidContextIndex_steps_def)

lemma SwitchContext_runs_steps:
  assumes "SwitchContext stats s = Inr (stats', s')"
  shows "run (SwitchContext_steps (info s)) s = s'"
proof -
  obtain copied0 flushed0 where stats: "stats = (copied0, flushed0)" by (cases stats)
  let ?v = "valid_ctx_idx (info s)"
  let ?w = "1 - ?v"
  from assms have v: "?v = 0 \<or> ?v = 1"
    by (auto simp: SwitchContext_def stats Let_def split: if_splits)
  let ?sc = "run (ExecutionContext_Flush_steps (info s) ?w @ SetValidContextIndex_steps ?w) s"
  let ?V = "ctx (info s) ?v" and ?W = "ctx (info s) ?w"
  have vw: "ctx ((info s)\<lparr>valid_ctx_idx := ?w\<rparr>) i = ctx (info s) i" for i
    by (simp add: ctx_def)
  let ?rec = "s\<lparr>info := (info s)\<lparr>valid_ctx_idx := ?w\<rparr>,
        info_persisted := (set_ctx ?w ?W (info_persisted s))\<lparr>valid_ctx_idx := ?w\<rparr>,
        ram := snd (ExecutionContext_Flush (cr3 (cpu_context ?W)) ?W (flushed0, ram s))\<rparr>"
  have sc: "?sc = ?rec"
    by (rule commit_state)
  note s2 = SetValidContextIndex_eq
  from assms have pre: "CopyContextFrom_pre ?V ?W"
    using v
    by (simp add: SwitchContext_def stats Let_def s2 vw CopyContextFrom_def
          CopyContextFrom_pre_def CopyDataFrom_def split: if_splits sum.splits)
  have steps: "SwitchContext_steps (info s)
      = (ExecutionContext_Flush_steps (info s) ?w @ SetValidContextIndex_steps ?w) @
        [CopyCPUContext ?v ?w, StoreCR3 ?v (cr3 (cpu_context ?V))] @
        CopyDataFrom_steps (data (map_info ?V)) (data (map_info ?W)) @
        CopyDataFrom_steps (stack (map_info ?V)) (stack (map_info ?W))"
    using v pre by (simp add: SwitchContext_steps_def Let_def CopyContextFrom_steps_def
        CopyContextFrom_pre_def)
  have vw_ne: "?v \<noteq> ?w" using v by auto
  have wctx: "ctx (set_ctx ?v c ((info s)\<lparr>valid_ctx_idx := ?w\<rparr>)) ?w = ?W" for c
    using v by (auto simp: ctx_def set_ctx_def)
  have run_all: "run (SwitchContext_steps (info s)) s
      = ?rec\<lparr>info := set_ctx ?v (?V\<lparr>cpu_context := (cpu_context ?W)\<lparr>cr3 := cr3 (cpu_context ?V)\<rparr>\<rparr>)
                        (info ?rec),
             ram := CopyContextFrom_mem ?V ?W (ram ?rec)\<rparr>"
    unfolding steps run_append [of "ExecutionContext_Flush_steps (info s) ?w @ SetValidContextIndex_steps ?w"] sc
    by (simp add: run_CopyDataFrom CopyContextFrom_mem_def vw wctx ctx_set_ctx_same)
       (auto simp: set_ctx_def)
  have c: "(?v \<noteq> 0 \<and> ?v \<noteq> 1) = False" using v by auto
  from assms show ?thesis
    by (simp add: SwitchContext_def stats c Let_def s2 vw CopyContextFrom_returns [OF pre] run_all)
qed

lemma list_all_take: "list_all P xs \<Longrightarrow> list_all P (take k xs)"
  using set_take_subset [of k xs] by (auto simp: list_all_iff)

lemma take_before_last:
  "k \<le> length xs + 1 \<Longrightarrow> take k (xs @ x # ys) = take k (xs @ [x])"
  by (cases "k \<le> length xs") (auto simp: take_Cons' not_le)

lemma segments_apart:
  "segment_apart seg mj \<Longrightarrow> in_segment seg a \<Longrightarrow> \<not> in_mapping mj a"
  using ranges_disjointD
  unfolding segment_apart_def segments_disjoint_def in_mapping_def in_segment_def by blast

lemma mappings_apart:
  "mappings_disjoint mi mj \<Longrightarrow> in_mapping mi a \<Longrightarrow> \<not> in_mapping mj a"
  using segments_apart unfolding mappings_disjoint_def in_mapping_def by blast

lemma flushed_region_in_mapping: "flushed_region mi a \<Longrightarrow> in_mapping mi a"
  by (auto simp: flushed_region_def in_mapping_def)

lemma copied_region_in_mapping: "copied_region mi a \<Longrightarrow> in_mapping mi a"
  by (auto simp: copied_region_def in_mapping_def)

lemma crash_fields:
  "info (crash s) = info_persisted s" "bytes (ram (crash s)) = persisted (ram s)"
  by (simp_all add: crash_def)

lemma crash_before_commit:
  fixes s :: machine
  defines "v \<equiv> valid_ctx_idx (info s)"
  defines "w \<equiv> 1 - valid_ctx_idx (info s)"
  assumes init: "v = 0 \<or> v = 1"
      and k: "k < commit_point (info s)"
  shows "valid_ctx_idx (info (crash_after k s)) = valid_ctx_idx (info_persisted s)
       \<and> signature (info (crash_after k s)) = signature (info_persisted s)
       \<and> ctx (info (crash_after k s)) v = ctx (info_persisted s) v
       \<and> (\<not> flushed_region (map_info (ctx (info s) w)) a \<longrightarrow>
            bytes (ram (crash_after k s)) a = persisted (ram s) a)"
proof -
  let ?A = "ExecutionContext_Flush_steps (info s) w"
  let ?C = "CopyContextFrom_steps (info s) v w"
  have steps: "SwitchContext_steps (info s) = ?A @ StoreValidIndex w # FlushValidIndex # ?C"
    using init by (simp add: SwitchContext_steps_def Let_def SetValidContextIndex_steps_def
        v_def w_def)
  have "k \<le> length ?A + 1" using k by (simp add: commit_point_def w_def)
  then have tk: "take k (SwitchContext_steps (info s)) = take k (?A @ [StoreValidIndex w])"
    unfolding steps by (rule take_before_last)
  have "list_all (flushes_within (flushed_region (map_info (ctx (info s) w))) w)
          (?A @ [StoreValidIndex w])"
    using context_flush_steps_within [of "info s" w] by simp
  then have ok: "list_all (flushes_within (flushed_region (map_info (ctx (info s) w))) w)
          (take k (SwitchContext_steps (info s)))"
    unfolding tk by (rule list_all_take)
  have vw: "v \<noteq> w" "w = 0 \<or> w = 1" using init by (auto simp: w_def v_def)
  show ?thesis
    using before_commit_inv [OF ok vw(1) init vw(2), of s a]
    by (simp add: crash_after_def crash_fields)
qed

lemma crash_after_commit:
  fixes s :: machine
  defines "v \<equiv> valid_ctx_idx (info s)"
  defines "w \<equiv> 1 - valid_ctx_idx (info s)"
  assumes init: "v = 0 \<or> v = 1"
      and k: "commit_point (info s) \<le> k"
  shows "valid_ctx_idx (info (crash_after k s)) = w
       \<and> signature (info (crash_after k s)) = signature (info_persisted s)
       \<and> ctx (info (crash_after k s)) w = ctx (info s) w
       \<and> (\<not> copied_region (map_info (ctx (info s) v)) a \<longrightarrow>
            bytes (ram (crash_after k s)) a
              = persisted (snd (ExecutionContext_Flush page_root (ctx (info s) w) (num, ram s))) a)"
proof -
  let ?A = "ExecutionContext_Flush_steps (info s) w"
  let ?B = "SetValidContextIndex_steps w"
  let ?C = "CopyContextFrom_steps (info s) v w"
  let ?sc = "run (?A @ ?B) s"
  have steps: "SwitchContext_steps (info s) = (?A @ ?B) @ ?C"
    using init by (simp add: SwitchContext_steps_def Let_def v_def w_def)
  have len: "length (?A @ ?B) = commit_point (info s)"
    by (simp add: commit_point_def SetValidContextIndex_steps_def w_def)
  have tk: "take k (SwitchContext_steps (info s)) = (?A @ ?B) @ take (k - commit_point (info s)) ?C"
    unfolding steps using k len by (simp only: take_append) simp
  have ok: "list_all (writes_within (copied_region (map_info (ctx (info s) v))))
              (take (k - commit_point (info s)) ?C)"
    using context_copy_steps_within [of "info s" v w] by (rule list_all_take)
  have run_k: "run (take k (SwitchContext_steps (info s))) s
                 = run (take (k - commit_point (info s)) ?C) ?sc"
    unfolding tk by (rule run_append)
  note sc = commit_state [of s w page_root num]
  have sc_fields:
    "valid_ctx_idx (info_persisted ?sc) = w"
    "signature (info_persisted ?sc) = signature (info_persisted s)"
    "ctx (info_persisted ?sc) w = ctx (info s) w"
    "persisted (ram ?sc) = persisted (snd (ExecutionContext_Flush page_root (ctx (info s) w) (num, ram s)))"
    unfolding sc by (auto simp: ctx_def set_ctx_def)
  show ?thesis
    using after_commit_inv [OF ok, of ?sc a] sc_fields
    by (simp add: crash_after_def crash_fields run_k)
qed

text \<open>
  What recovery finds after power fails at any point of a checkpoint, when the valid
  index, the signature and the mapping of the valid slot are durable at its start and
  the slots own disjoint physical ranges: before the flush of \<open>valid_ctx_idx\<close> the old
  valid slot with the bytes that were durable at the start; from the flush on the
  working slot, with the bytes as the flush of the working context left them in
  persistent memory.
\<close>

lemma crash_recovery_image:
  fixes s :: machine
  defines "v \<equiv> valid_ctx_idx (info s)"
  defines "w \<equiv> 1 - valid_ctx_idx (info s)"
  assumes init: "v = 0 \<or> v = 1"
      and durable: "valid_ctx_idx (info_persisted s) = v" "IsValid (info_persisted s)"
      and same_map: "map_info (ctx (info_persisted s) v) = map_info (ctx (info s) v)"
      and apart: "mappings_disjoint (map_info (ctx (info s) v)) (map_info (ctx (info s) w))"
  shows "(k < commit_point (info s) \<longrightarrow>
            recover (crash_after k s) = Resumed v (ctx (info_persisted s) v)
          \<and> (in_mapping (map_info (ctx (info_persisted s) v)) a \<longrightarrow>
               bytes (ram (crash_after k s)) a = persisted (ram s) a))
       \<and> (commit_point (info s) \<le> k \<longrightarrow>
            recover (crash_after k s) = Resumed w (ctx (info s) w)
          \<and> (in_mapping (map_info (ctx (info s) w)) a \<longrightarrow>
               bytes (ram (crash_after k s)) a
                 = persisted (snd (ExecutionContext_Flush page_root (ctx (info s) w) (num, ram s))) a))"
proof (intro conjI impI)
  assume k: "k < commit_point (info s)"
  note inv = crash_before_commit [OF init [unfolded v_def] k, folded v_def w_def]
  show "recover (crash_after k s) = Resumed v (ctx (info_persisted s) v)"
    using inv [of a] durable init by (simp add: recover_def IsValid_def)
  assume "in_mapping (map_info (ctx (info_persisted s) v)) a"
  then have "\<not> flushed_region (map_info (ctx (info s) w)) a"
    using mappings_apart [OF apart] flushed_region_in_mapping same_map by auto
  then show "bytes (ram (crash_after k s)) a = persisted (ram s) a"
    using inv [of a] by simp
next
  assume k: "commit_point (info s) \<le> k"
  note inv = crash_after_commit [OF init [unfolded v_def] k, folded v_def w_def]
  have w01: "w = 0 \<or> w = 1" using init by (auto simp: w_def v_def)
  show "recover (crash_after k s) = Resumed w (ctx (info s) w)"
    using inv [of a page_root num] durable w01 by (simp add: recover_def IsValid_def)
  assume "in_mapping (map_info (ctx (info s) w)) a"
  then have "\<not> copied_region (map_info (ctx (info s) v)) a"
    using mappings_apart [OF apart] copied_region_in_mapping by blast
  then show "bytes (ram (crash_after k s)) a
               = persisted (snd (ExecutionContext_Flush page_root (ctx (info s) w) (num, ram s))) a"
    using inv [of a page_root num] by simp
qed

lemma CopyContextFrom_mem_stack_persisted:
  assumes pre: "CopyContextFrom_pre this other"
      and mm: "mappings_disjoint (map_info this) (map_info other)"
      and off: "off < map_size (stack (map_info other))"
  shows "persisted (CopyContextFrom_mem this other m) (paddr (stack (map_info this)) + off)
           = bytes m (paddr (stack (map_info other)) + off)"
proof -
  let ?dt = "data (map_info this)" and ?df = "data (map_info other)"
  let ?st = "stack (map_info this)" and ?sf = "stack (map_info other)"
  let ?b = "paddr ?sf + off"
  have le: "map_size ?df \<le> map_size ?dt" "map_size ?sf \<le> map_size ?st"
    using pre by (simp_all add: CopyContextFrom_pre_def CopyDataFrom_pre_def)
  have ss: "ranges_disjoint (paddr ?st) (map_size ?st) (paddr ?sf) (map_size ?sf)"
    using mm by (simp add: mappings_disjoint_def segment_apart_def segments_disjoint_def)
  have dsf: "ranges_disjoint (paddr ?dt) (map_size ?dt) (paddr ?sf) (map_size ?sf)"
    using mm by (simp add: mappings_disjoint_def segment_apart_def segments_disjoint_def)
  have "in_range (paddr ?sf) (map_size ?sf) ?b" using off by (rule in_range_offset)
  then have "\<not> in_range (paddr ?dt) (map_size ?dt) ?b"
    using ranges_disjoint_sym [OF dsf] ranges_disjointD by blast
  then have out: "\<not> in_range (paddr ?dt) (map_size ?df) ?b"
    using le(1) in_range_mono by blast
  show ?thesis
    unfolding CopyContextFrom_mem_def
    using copy_segment_outside [OF out] copy_segment_inside [OF prefix_disjoint [OF ss le(2)] off]
    by simp
qed

lemma run_SwitchContext_steps:
  fixes s :: machine
  defines "v \<equiv> valid_ctx_idx (info s)"
  defines "w \<equiv> 1 - valid_ctx_idx (info s)"
  assumes init: "v = 0 \<or> v = 1"
      and pre: "CopyContextFrom_pre (ctx (info s) v) (ctx (info s) w)"
  shows "run (SwitchContext_steps (info s)) s
           = s\<lparr>info := set_ctx v ((ctx (info s) v)\<lparr>cpu_context :=
                           (cpu_context (ctx (info s) w))\<lparr>cr3 := cr3 (cpu_context (ctx (info s) v))\<rparr>\<rparr>)
                         ((info s)\<lparr>valid_ctx_idx := w\<rparr>),
                info_persisted := (set_ctx w (ctx (info s) w) (info_persisted s))\<lparr>valid_ctx_idx := w\<rparr>,
                ram := CopyContextFrom_mem (ctx (info s) v) (ctx (info s) w)
                         (snd (ExecutionContext_Flush page_root (ctx (info s) w) (num, ram s)))\<rparr>"
proof -
  let ?V = "ctx (info s) v" and ?W = "ctx (info s) w"
  have steps: "SwitchContext_steps (info s)
      = (ExecutionContext_Flush_steps (info s) w @ SetValidContextIndex_steps w) @
        [CopyCPUContext v w, StoreCR3 v (cr3 (cpu_context ?V))] @
        CopyDataFrom_steps (data (map_info ?V)) (data (map_info ?W)) @
        CopyDataFrom_steps (stack (map_info ?V)) (stack (map_info ?W))"
    using init pre by (simp add: SwitchContext_steps_def Let_def CopyContextFrom_steps_def
        CopyContextFrom_pre_def v_def w_def)
  have vw: "ctx ((info s)\<lparr>valid_ctx_idx := w\<rparr>) i = ctx (info s) i" for i
    by (simp add: ctx_def)
  have wctx: "ctx (set_ctx v c ((info s)\<lparr>valid_ctx_idx := w\<rparr>)) w = ?W" for c
    using init by (auto simp: ctx_def set_ctx_def w_def v_def)
  show ?thesis
    unfolding steps run_append [of "ExecutionContext_Flush_steps (info s) w @ SetValidContextIndex_steps w"]
      commit_state [of s w page_root num]
    by (simp add: run_CopyDataFrom CopyContextFrom_mem_def vw wctx ctx_set_ctx_same)
       (auto simp: set_ctx_def)
qed

lemma with_rip_fields:
  "map_info (with_rip r c) = map_info c"
  "rip (int_ctx (cpu_context (with_rip r c))) = r"
  by (simp_all add: with_rip_def)

lemma first_checkpoint_eq:
  "first_checkpoint
     = first_machine
         \<lparr>info := \<lparr>ctx0 = ctx_A\<lparr>cpu_context :=
                              (cpu_context (with_rip 0x1111 ctx_B))\<lparr>cr3 := cr3 (cpu_context ctx_A)\<rparr>\<rparr>,
                   ctx1 = with_rip 0x1111 ctx_B, valid_ctx_idx = 1, signature = kSignature\<rparr>,
          info_persisted := \<lparr>ctx0 = ctx_A, ctx1 = with_rip 0x1111 ctx_B, valid_ctx_idx = 1,
                             signature = kSignature\<rparr>,
          ram := CopyContextFrom_mem ctx_A (with_rip 0x1111 ctx_B)
                   (snd (ExecutionContext_Flush () (with_rip 0x1111 ctx_B) (0, ram first_machine)))\<rparr>"
proof -
  have f: "valid_ctx_idx (info first_machine) = 0"
    "ctx (info first_machine) 0 = ctx_A" "ctx (info first_machine) 1 = with_rip 0x1111 ctx_B"
    by (simp_all add: first_machine_def ctx_def)
  have init: "valid_ctx_idx (info first_machine) = 0 \<or> valid_ctx_idx (info first_machine) = 1"
    by (simp add: f)
  have pre: "CopyContextFrom_pre (ctx (info first_machine) (valid_ctx_idx (info first_machine)))
               (ctx (info first_machine) (1 - valid_ctx_idx (info first_machine)))"
    using slot_ctx_wf(5) by (simp add: f CopyContextFrom_pre_def with_rip_fields)
  show ?thesis
    unfolding first_checkpoint_def
      run_SwitchContext_steps [OF init pre, where page_root = "()" and num = 0]
    by (simp add: f) (simp add: first_machine_def set_ctx_def)
qed

lemma second_machine_info:
  "info second_machine
     = \<lparr>ctx0 = with_rip 0x2222
                 (ctx_A\<lparr>cpu_context :=
                          (cpu_context (with_rip 0x1111 ctx_B))\<lparr>cr3 := cr3 (cpu_context ctx_A)\<rparr>\<rparr>),
        ctx1 = with_rip 0x1111 ctx_B, valid_ctx_idx = 1, signature = kSignature\<rparr>"
  "info_persisted second_machine
     = \<lparr>ctx0 = ctx_A, ctx1 = with_rip 0x1111 ctx_B, valid_ctx_idx = 1, signature = kSignature\<rparr>"
  "ram second_machine
     = store_byte 0x102abc 0x52 (store_byte 0x101abc 0xD2
         (CopyContextFrom_mem ctx_A (with_rip 0x1111 ctx_B)
            (snd (ExecutionContext_Flush () (with_rip 0x1111 ctx_B) (0, ram first_machine)))))"
  by (simp_all add: second_machine_def process_runs_def first_checkpoint_eq set_ctx_def ctx_def)

lemma second_machine_ctx:
  "valid_ctx_idx (info second_machine) = 1"
  "valid_ctx_idx (info_persisted second_machine) = 1"
  "IsValid (info_persisted second_machine)"
  "map_info (ctx (info second_machine) 0) = map_info ctx_A"
  "map_info (ctx (info second_machine) 1) = map_info ctx_B"
  "ctx (info_persisted second_machine) 1 = with_rip 0x1111 ctx_B"
  "rip (int_ctx (cpu_context (ctx (info second_machine) 0))) = 0x2222"
  by (simp_all add: second_machine_info ctx_def IsValid_def with_rip_fields)

lemma in_slot_segments:
  "in_segment (data (map_info ctx_A)) 0x101abc" "in_segment (stack (map_info ctx_A)) 0x102abc"
  "in_segment (data (map_info ctx_B)) 0x201abc" "in_segment (stack (map_info ctx_B)) 0x202abc"
  "\<not> in_segment (code (map_info ctx_A)) 0x102abc" "\<not> in_segment (data (map_info ctx_A)) 0x102abc"
  "\<not> in_segment (heap (map_info ctx_A)) 0x102abc"
  "\<not> in_segment (data (map_info ctx_A)) 0x201abc" "\<not> in_segment (stack (map_info ctx_A)) 0x201abc"
  "\<not> in_segment (data (map_info ctx_A)) 0x202abc" "\<not> in_segment (stack (map_info ctx_A)) 0x202abc"
  "\<not> in_segment (code (map_info ctx_B)) 0x202abc" "\<not> in_segment (data (map_info ctx_B)) 0x202abc"
  "\<not> in_segment (heap (map_info ctx_B)) 0x202abc"
  "\<not> in_segment (stack (map_info ctx_B)) 0x201abc"
  by (simp_all add: ctx_A_def ctx_B_def slot_ctx_def in_segment_def in_range_def)

lemma second_machine_ram:
  "bytes (ram second_machine) 0x101abc = 0xD2"
  "bytes (ram second_machine) 0x102abc = 0x52"
  "bytes (ram second_machine) 0x202abc = 0x51"
  "bytes (ram second_machine) 0x201abc = 0xD1"
  "persisted (ram second_machine) 0x102abc = 0x51"
  "persisted (ram second_machine) 0x201abc = 0xD1"
  "persisted (ram second_machine) 0x202abc = 0"
proof -
  let ?B = "with_rip 0x1111 ctx_B"
  let ?m1 = "snd (ExecutionContext_Flush () ?B (0, ram first_machine))"
  let ?m2 = "CopyContextFrom_mem ctx_A ?B ?m1"
  have pre: "CopyContextFrom_pre ctx_A ?B"
    using slot_ctx_wf(5) by (simp add: CopyContextFrom_pre_def with_rip_fields)
  have mm: "mappings_disjoint (map_info ctx_A) (map_info ?B)"
    using slot_ctx_wf(3) by (simp add: with_rip_fields)
  have m1: "bytes ?m1 = bytes (ram first_machine)"
    "persisted ?m1 0x201abc = 0xD1" "persisted ?m1 0x202abc = 0"
    using in_slot_segments
    by (simp_all add: ExecutionContext_Flush_mem with_rip_fields first_machine_def)
  have b0: "bytes (ram first_machine) 0x202abc = 0x51" "bytes (ram first_machine) 0x201abc = 0xD1"
    using in_slot_segments by (simp_all add: first_machine_def)
  have off: "(0xabc :: u64) < map_size (stack (map_info ?B))"
    by (simp add: with_rip_fields ctx_B_def slot_ctx_def)
  have stackA: "paddr (stack (map_info ctx_A)) + 0xabc = 0x102abc"
    and stackB: "paddr (stack (map_info ?B)) + 0xabc = 0x202abc"
    by (simp_all add: with_rip_fields ctx_A_def ctx_B_def slot_ctx_def)
  have copied: "persisted ?m2 0x102abc = 0x51"
    using CopyContextFrom_mem_stack_persisted [OF pre mm off, of ?m1]
    by (simp add: stackA stackB m1 b0)
  have frame1: "bytes ?m2 0x201abc = bytes ?m1 0x201abc \<and> persisted ?m2 0x201abc = persisted ?m1 0x201abc"
    by (rule CopyContextFrom_mem_frame [OF pre]) (simp_all add: in_slot_segments)
  have frame2: "bytes ?m2 0x202abc = bytes ?m1 0x202abc \<and> persisted ?m2 0x202abc = persisted ?m1 0x202abc"
    by (rule CopyContextFrom_mem_frame [OF pre]) (simp_all add: in_slot_segments)
  show "bytes (ram second_machine) 0x101abc = 0xD2"
    "bytes (ram second_machine) 0x102abc = 0x52"
    "bytes (ram second_machine) 0x202abc = 0x51"
    "bytes (ram second_machine) 0x201abc = 0xD1"
    "persisted (ram second_machine) 0x102abc = 0x51"
    "persisted (ram second_machine) 0x201abc = 0xD1"
    "persisted (ram second_machine) 0x202abc = 0"
    using copied frame1 frame2 m1 b0
    by (simp_all add: second_machine_info store_byte_def)
qed

lemma commit_point_second: "commit_point (info second_machine) = 12291"
  by (simp add: commit_point_def second_machine_ctx ExecutionContext_Flush_steps_def
        ProcessMappingInfo_Flush_steps_def SegmentMapping_Flush_steps_def)
     (simp add: ctx_A_def slot_ctx_def)

text \<open>
  C1, on the code. The second checkpoint of a process starts in \<open>second_machine\<close>: the
  valid index 1 is durable and the two slots own disjoint physical ranges. Power fails
  right after the flush of \<open>valid_ctx_idx\<close>, the 12291st store or flush of
  \<open>SwitchContext\<close>. Recovery resumes slot 0 with the new registers (\<open>rip = 0x2222\<close>)
  and the new data byte \<open>0xD2\<close>, but the byte at \<open>0x102abc\<close> of its stack segment
  reads \<open>0x51\<close>: not the \<open>0x52\<close> the process stored there, which no flush has made
  durable because \<open>ProcessMappingInfo::Flush\<close> leaves the stack segment out, but the
  stack content of the other slot, which step 4 of the previous checkpoint copied there
  and flushed. One store earlier recovery resumes slot 1 (\<open>rip = 0x1111\<close>, data byte
  \<open>0xD1\<close>), whose stack byte was never durable and reads 0.
\<close>

theorem SwitchContext_recovers_mixed_context:
  "valid_ctx_idx (info second_machine) = 1
   \<and> valid_ctx_idx (info_persisted second_machine) = 1
   \<and> IsValid (info_persisted second_machine)
   \<and> mappings_disjoint (map_info (ctx (info second_machine) 1))
        (map_info (ctx (info second_machine) 0))
   \<and> commit_point (info second_machine) = 12291
   \<and> recover (crash_after 12291 second_machine) = Resumed 0 (ctx (info second_machine) 0)
   \<and> rip (int_ctx (cpu_context (ctx (info second_machine) 0))) = 0x2222
   \<and> in_segment (data (map_info (ctx (info second_machine) 0))) 0x101abc
   \<and> bytes (ram second_machine) 0x101abc = 0xD2
   \<and> bytes (ram (crash_after 12291 second_machine)) 0x101abc = 0xD2
   \<and> in_segment (stack (map_info (ctx (info second_machine) 0))) 0x102abc
   \<and> bytes (ram second_machine) 0x102abc = 0x52
   \<and> bytes (ram (crash_after 12291 second_machine)) 0x102abc = 0x51
   \<and> in_segment (stack (map_info (ctx (info second_machine) 1))) 0x202abc
   \<and> bytes (ram second_machine) 0x202abc = 0x51
   \<and> recover (crash_after 12290 second_machine) = Resumed 1 (ctx (info_persisted second_machine) 1)
   \<and> rip (int_ctx (cpu_context (ctx (info_persisted second_machine) 1))) = 0x1111
   \<and> bytes (ram (crash_after 12290 second_machine)) 0x201abc = 0xD1
   \<and> bytes (ram (crash_after 12290 second_machine)) 0x202abc = 0"
proof -
  note c = second_machine_ctx and r = second_machine_ram and seg = in_slot_segments
  have h1: "valid_ctx_idx (info second_machine) = 0 \<or> valid_ctx_idx (info second_machine) = 1"
    by (simp add: c)
  have h2: "valid_ctx_idx (info_persisted second_machine) = valid_ctx_idx (info second_machine)"
    by (simp add: c)
  have h4: "map_info (ctx (info_persisted second_machine) (valid_ctx_idx (info second_machine)))
              = map_info (ctx (info second_machine) (valid_ctx_idx (info second_machine)))"
    by (simp add: c with_rip_fields)
  have h5: "mappings_disjoint
              (map_info (ctx (info second_machine) (valid_ctx_idx (info second_machine))))
              (map_info (ctx (info second_machine) (1 - valid_ctx_idx (info second_machine))))"
    by (simp add: c slot_ctx_wf)
  note T = crash_recovery_image [OF h1 h2 c(3) h4 h5]
  have inA: "in_mapping (map_info (ctx (info second_machine) 0)) 0x101abc"
            "in_mapping (map_info (ctx (info second_machine) 0)) 0x102abc"
    by (simp_all add: c in_mapping_def seg)
  have inB: "in_mapping (map_info (ctx (info_persisted second_machine) 1)) 0x201abc"
            "in_mapping (map_info (ctx (info_persisted second_machine) 1)) 0x202abc"
    by (simp_all add: c with_rip_fields in_mapping_def seg)
  have fl: "persisted (snd (ExecutionContext_Flush () (ctx (info second_machine) 0)
                              (0, ram second_machine))) 0x101abc = 0xD2"
           "persisted (snd (ExecutionContext_Flush () (ctx (info second_machine) 0)
                              (0, ram second_machine))) 0x102abc = 0x51"
    by (simp_all add: ExecutionContext_Flush_mem c seg r)
  have after: "recover (crash_after 12291 second_machine) = Resumed 0 (ctx (info second_machine) 0)"
    "bytes (ram (crash_after 12291 second_machine)) 0x101abc = 0xD2"
    "bytes (ram (crash_after 12291 second_machine)) 0x102abc = 0x51"
    using T [where k = 12291 and a = "0x101abc" and page_root = "()" and num = 0]
          T [where k = 12291 and a = "0x102abc" and page_root = "()" and num = 0]
          inA fl
    by (simp_all add: commit_point_second c)
  have before: "recover (crash_after 12290 second_machine)
                  = Resumed 1 (ctx (info_persisted second_machine) 1)"
    "bytes (ram (crash_after 12290 second_machine)) 0x201abc = 0xD1"
    "bytes (ram (crash_after 12290 second_machine)) 0x202abc = 0"
    using T [where k = 12290 and a = "0x201abc" and page_root = "()" and num = 0]
          T [where k = 12290 and a = "0x202abc" and page_root = "()" and num = 0]
          inB r
    by (simp_all add: commit_point_second c)
  have rip1: "rip (int_ctx (cpu_context (ctx (info_persisted second_machine) 1))) = 0x1111"
    by (simp add: c with_rip_fields)
  have dis: "mappings_disjoint (map_info (ctx (info second_machine) 1))
               (map_info (ctx (info second_machine) 0))"
    by (simp add: c slot_ctx_wf)
  have segs: "in_segment (data (map_info (ctx (info second_machine) 0))) 0x101abc"
    "in_segment (stack (map_info (ctx (info second_machine) 0))) 0x102abc"
    "in_segment (stack (map_info (ctx (info second_machine) 1))) 0x202abc"
    by (simp_all add: c seg)
  show ?thesis
    by (intro conjI c(1) c(2) c(3) dis commit_point_second after rip1 before c(7) segs r(1) r(2) r(3))
qed

end
